theory Spec2Isabelle
  imports Complex_Main
begin

section \<open>Text extraction (\<open>parseContent\<close> of agent/src/agent.ts, \<open>getUserMessageText\<close> of README.md)\<close>

text \<open>
  A content segment is the JavaScript object \<open>{ type: string; text?: string }\<close>.
  An optional string field is a \<open>string option\<close>; JavaScript truthiness of such a
  field (\<open>msg.text\<close>, \<open>b.text\<close> in a condition) is "present and not the empty string".
\<close>

record content_block =
  b_type :: string
  b_text :: "string option"

definition truthy :: "string option \<Rightarrow> bool" where
  "truthy v = (case v of None \<Rightarrow> False | Some s \<Rightarrow> s \<noteq> [])"

text \<open>\<open>Array.prototype.join\<close>: the separator goes between consecutive elements only.\<close>

fun join :: "string \<Rightarrow> string list \<Rightarrow> string" where
  "join sep [] = []"
| "join sep [x] = x"
| "join sep (x # y # ys) = x @ sep @ join sep (y # ys)"

definition newline :: string where
  "newline = [CHR 0x0A]"

text \<open>
  The inbound frames \<open>ProcessStartCommand { type; session_id? }\<close> and
  \<open>SessionMessageCommand { type; text?; content? }\<close> are both read off the value that
  \<open>JSON.parse\<close> returns, so one record holds the four fields the agent reads; a field
  that is absent (or, for \<open>type\<close>, not a string) is \<open>None\<close>.
\<close>

record command =
  c_type :: "string option"
  c_session_id :: "string option"
  c_text :: "string option"
  c_content :: "content_block list option"

text \<open>
  \<^verbatim>\<open>
  function parseContent(msg) {
    if (msg.text) return msg.text;
    if (msg.content) {
      return msg.content.filter((b) => b.type === "text" && b.text)
                        .map((b) => b.text!).join("\n");
    }
    return "";
  }
  \<close>
  An array is truthy even when empty, so \<open>msg.content\<close> is tested for presence only.
\<close>

definition parseContent :: "command \<Rightarrow> string" where
  "parseContent msg =
     (if truthy (c_text msg) then the (c_text msg)
      else case c_content msg of
             Some bs \<Rightarrow>
               join newline
                 (map (\<lambda>b. the (b_text b))
                    (filter (\<lambda>b. b_type b = ''text'' \<and> truthy (b_text b)) bs))
           | None \<Rightarrow> [])"

text \<open>
  The content of a log entry is \<open>string | unknown[]\<close>; \<open>Neither\<close> stands for a value that
  is neither a string nor an array.
  \<^verbatim>\<open>
  const getUserMessageText = (content: string | unknown[]): string => {
    if (typeof content === "string") return content;
    if (Array.isArray(content)) {
      return content.filter((b) => b.type === "text" && b.text)
                    .map((b) => b.text).join("\n");
    }
    return "";
  }
  \<close>
\<close>

datatype message_content = Str string | Arr "content_block list" | Neither

fun getUserMessageText :: "message_content \<Rightarrow> string" where
  "getUserMessageText (Str s) = s"
| "getUserMessageText (Arr bs) =
     join newline
       (map (\<lambda>b. the (b_text b))
          (filter (\<lambda>b. b_type b = ''text'' \<and> truthy (b_text b)) bs))"
| "getUserMessageText Neither = []"

text \<open>A text segment \<open>{ type: "text", text: s }\<close>.\<close>

definition text_segment :: "string \<Rightarrow> content_block" where
  "text_segment s = \<lparr>b_type = ''text'', b_text = Some s\<rparr>"

text \<open>The texts a content list contributes: those of its text segments with a non-empty text.\<close>

definition segment_texts :: "content_block list \<Rightarrow> string list" where
  "segment_texts bs =
     concat (map (\<lambda>b. if b_type b = ''text'' then
                          (case b_text b of None \<Rightarrow> [] | Some s \<Rightarrow> if s = [] then [] else [s])
                        else []) bs)"

text \<open>The texts in order with one newline before every text but the first.\<close>

definition newline_separated :: "string list \<Rightarrow> string" where
  "newline_separated ss =
     (case ss of [] \<Rightarrow> [] | s # rest \<Rightarrow> s @ concat (map (\<lambda>t. newline @ t) rest))"

section \<open>The line reader (\<open>class LineReader\<close> of agent/src/agent.ts)\<close>

text \<open>
  The object has the fields \<open>lines\<close>, \<open>resolvers\<close> and \<open>closed\<close>. A call of \<open>readLine\<close>
  is named by its number (0 for the first call, 1 for the second, ...), which \<open>lr_calls\<close>
  counts; a resolver is named by the call that pushed it.

  \<open>readLine\<close> is an \<open>async\<close> function, so the promise the caller gets is not the promise
  made inside. When the body returns a line or \<open>null\<close>, the caller's promise is fulfilled
  at once. When the body returns the inner promise, the caller's promise follows it
  through the microtask queue: the return queues a job that subscribes to the inner
  promise (\<open>ResolveThenable\<close>); once the inner promise is fulfilled and subscribed to, a
  second job is queued (\<open>Reaction\<close>), and the caller's promise is fulfilled when that job
  runs. So the value of a call is fixed when \<open>resolve\<close> is called on its resolver, and
  the call returns it to its caller later. The model keeps
  \<^item> \<open>lr_jobs\<close>: the queued jobs of the reader's promises, oldest first;
  \<^item> \<open>lr_subscribed\<close>: the waiting calls whose subscription job has run;
  \<^item> \<open>lr_fulfilled\<close>: the calls whose inner promise was fulfilled before their
    subscription job ran, with the value.
\<close>

datatype job = ResolveThenable nat | Reaction nat "string option"

record line_reader =
  lr_lines :: "string list"
  lr_resolvers :: "nat list"
  lr_closed :: bool
  lr_calls :: nat
  lr_subscribed :: "nat list"
  lr_fulfilled :: "(nat \<times> string option) list"
  lr_jobs :: "job list"

text \<open>
  A call with a value (\<open>None\<close> is JavaScript's \<open>null\<close>), and the two things a step of the
  reader can tell about a call: \<open>Handed k v\<close>, the value of call \<open>k\<close> is fixed as \<open>v\<close>
  (\<open>return v\<close> in \<open>readLine\<close>, or \<open>resolve(v)\<close> called on its resolver); \<open>Settled k v\<close>,
  the promise that call \<open>k\<close> gave its caller is fulfilled with \<open>v\<close>.
\<close>

type_synonym answer = "nat \<times> string option"

datatype notice = Handed nat "string option" | Settled nat "string option"

definition lr_init :: line_reader where
  "lr_init = \<lparr>lr_lines = [], lr_resolvers = [], lr_closed = False, lr_calls = 0,
              lr_subscribed = [], lr_fulfilled = [], lr_jobs = []\<rparr>"

text \<open>
  \<open>resolve(v)\<close> on the resolver of call \<open>k\<close>: the inner promise is fulfilled; if the
  caller's promise has subscribed, its reaction job is queued, otherwise the value
  waits for the subscription job.
\<close>

definition fulfil :: "nat \<Rightarrow> string option \<Rightarrow> line_reader \<Rightarrow> line_reader" where
  "fulfil k v s =
     (if k \<in> set (lr_subscribed s)
      then s\<lparr>lr_subscribed := removeAll k (lr_subscribed s),
             lr_jobs := lr_jobs s @ [Reaction k v]\<rparr>
      else s\<lparr>lr_fulfilled := lr_fulfilled s @ [(k, v)]\<rparr>)"

text \<open>
  \<^verbatim>\<open>
  rl.on("line", (line) => {
    if (this.resolvers.length > 0) { const resolve = this.resolvers.shift()!; resolve(line); }
    else { this.lines.push(line); }
  });
  \<close>
\<close>

definition on_line :: "string \<Rightarrow> line_reader \<Rightarrow> line_reader \<times> notice list" where
  "on_line l s =
     (case lr_resolvers s of
        r # rs \<Rightarrow> (fulfil r (Some l) (s\<lparr>lr_resolvers := rs\<rparr>), [Handed r (Some l)])
      | [] \<Rightarrow> (s\<lparr>lr_lines := lr_lines s @ [l]\<rparr>, []))"

text \<open>
  \<^verbatim>\<open>
  rl.on("close", () => {
    this.closed = true;
    while (this.resolvers.length > 0) { const resolve = this.resolvers.shift()!; resolve(null); }
  });
  \<close>
  The loop is \<open>drain\<close>, over the resolvers it finds: each iteration takes the first
  resolver off the list and calls it with \<open>null\<close>.
\<close>

fun drain :: "nat list \<Rightarrow> line_reader \<Rightarrow> line_reader \<times> notice list" where
  "drain [] s = (s, [])"
| "drain (r # rs) s =
     (let rest = drain rs (fulfil r None (s\<lparr>lr_resolvers := rs\<rparr>))
      in (fst rest, Handed r None # snd rest))"

definition on_close :: "line_reader \<Rightarrow> line_reader \<times> notice list" where
  "on_close s = drain (lr_resolvers s) (s\<lparr>lr_closed := True\<rparr>)"

text \<open>
  \<^verbatim>\<open>
  async readLine(): Promise<string | null> {
    if (this.lines.length > 0) return this.lines.shift()!;
    if (this.closed) return null;
    return new Promise((resolve) => { this.resolvers.push(resolve); });
  }
  \<close>
  In the first two branches the value is fixed and the caller's promise fulfilled in
  the call itself; in the third the resolver is pushed and the subscription job queued.
\<close>

definition readLine :: "line_reader \<Rightarrow> line_reader \<times> notice list" where
  "readLine s =
     (let k = lr_calls s; s1 = s\<lparr>lr_calls := Suc k\<rparr> in
      case lr_lines s of
        l # ls \<Rightarrow> (s1\<lparr>lr_lines := ls\<rparr>, [Handed k (Some l), Settled k (Some l)])
      | [] \<Rightarrow>
          if lr_closed s then (s1, [Handed k None, Settled k None])
          else (s1\<lparr>lr_resolvers := lr_resolvers s @ [k],
                   lr_jobs := lr_jobs s @ [ResolveThenable k]\<rparr>, []))"

text \<open>
  The oldest queued job runs. A subscription job finds the inner promise fulfilled (it
  queues the reaction job) or pending (it subscribes); a reaction job fulfils the
  caller's promise.
\<close>

definition microtask :: "line_reader \<Rightarrow> line_reader \<times> notice list" where
  "microtask s =
     (case lr_jobs s of
        [] \<Rightarrow> (s, [])
      | ResolveThenable k # js \<Rightarrow>
          (case map_of (lr_fulfilled s) k of
             Some v \<Rightarrow>
               (s\<lparr>lr_fulfilled := filter (\<lambda>a. fst a \<noteq> k) (lr_fulfilled s),
                  lr_jobs := js @ [Reaction k v]\<rparr>, [])
           | None \<Rightarrow> (s\<lparr>lr_subscribed := lr_subscribed s @ [k], lr_jobs := js\<rparr>, []))
      | Reaction k v # js \<Rightarrow> (s\<lparr>lr_jobs := js\<rparr>, [Settled k v]))"

text \<open>
  What can happen to a reader, in any order: a line arrives, the stream closes, somebody
  calls \<open>readLine\<close>, the oldest queued job runs.
\<close>

datatype lr_event = Line string | Close | ReadLine | Microtask

fun lr_step :: "lr_event \<Rightarrow> line_reader \<Rightarrow> line_reader \<times> notice list" where
  "lr_step (Line l) s = on_line l s"
| "lr_step Close s = on_close s"
| "lr_step ReadLine s = readLine s"
| "lr_step Microtask s = microtask s"

fun run_reader :: "lr_event list \<Rightarrow> line_reader \<Rightarrow> line_reader \<times> notice list" where
  "run_reader [] s = (s, [])"
| "run_reader (e # es) s =
     (case lr_step e s of (s1, out1) \<Rightarrow>
        (case run_reader es s1 of (s2, out2) \<Rightarrow> (s2, out1 @ out2)))"

text \<open>The lines that arrive during a sequence of events, in order.\<close>

fun arrived :: "lr_event list \<Rightarrow> string list" where
  "arrived [] = []"
| "arrived (Line l # es) = l # arrived es"
| "arrived (e # es) = arrived es"

text \<open>
  The calls whose value was fixed, and the calls that returned to their caller, each
  with the value and in the order in which it happened.
\<close>

fun handed :: "notice list \<Rightarrow> answer list" where
  "handed [] = []"
| "handed (Handed k v # out) = (k, v) # handed out"
| "handed (Settled k v # out) = handed out"

fun settled :: "notice list \<Rightarrow> answer list" where
  "settled [] = []"
| "settled (Settled k v # out) = (k, v) # settled out"
| "settled (Handed k v # out) = settled out"

text \<open>The lines among a list of calls with values, in the order of the list.\<close>

definition returned_lines :: "answer list \<Rightarrow> string list" where
  "returned_lines out = List.map_filter snd out"

section \<open>The agent process (\<open>main\<close>, \<open>flushVolume\<close>, \<open>callCallback\<close> of agent/src/agent.ts)\<close>

text \<open>
  A JavaScript \<open>number\<close> is only passed through or set to the literal 0 here; no arithmetic
  is done on it. An absent (or \<open>null\<close>) field is \<open>None\<close>.
\<close>

type_synonym number = real

record result_metrics =
  duration_ms :: "number option"
  duration_api_ms :: "number option"
  total_cost_usd :: "number option"
  num_turns :: "number option"

text \<open>\<open>interface AgentMessage { type; session_id?; message?; result? }\<close>: an outbound frame.\<close>

record agent_message =
  m_type :: string
  m_session_id :: "string option"
  m_message :: "string option"
  m_result :: "result_metrics option"

text \<open>
  A message of the sequence that \<open>query()\<close> yields, with the fields the loop reads:
  \<open>type\<close>, \<open>subtype\<close>, \<open>session_id\<close>, whether it has a property \<open>result\<close>
  (\<open>"result" in message\<close>), and the four metrics.
\<close>

record sdk_message =
  q_type :: string
  q_subtype :: "string option"
  q_session_id :: "string option"
  q_has_result :: bool
  q_duration_ms :: "number option"
  q_duration_api_ms :: "number option"
  q_total_cost_usd :: "number option"
  q_num_turns :: "number option"

text \<open>
  The body of the POST that \<open>callCallback\<close> sends, and how the \<open>fetch\<close> ends: with an
  ok response, with a response that is not ok, or by throwing. The \<open>fetch\<close> is taken to
  settle (it has connect and header timeouts), as the \<open>sync\<close> command does (it is run
  with a timeout of ten seconds).
\<close>

record callback_body =
  cb_status :: string
  cb_sessionId :: "string option"
  cb_errorMessage :: "string option"

datatype fetch_result = ResponseOk | ResponseNotOk | FetchThrows

text \<open>
  What the process does to the outside, in order: a frame written to standard output
  (\<open>emit\<close>), the \<open>sync\<close> command of \<open>flushVolume\<close> with whether it succeeded, the POST of
  \<open>callCallback\<close> to a URL with how it ended, and \<open>rl.close()\<close>. Diagnostics on standard
  error (\<open>debug\<close>, \<open>console.error\<close>) are left out.
\<close>

datatype effect =
    Emit agent_message
  | Sync bool
  | Post string callback_body fetch_result
  | RlClose

text \<open>
  The environment: the two variables that \<open>main\<close> and \<open>callCallback\<close> read, and what the
  outside answers to the \<open>sync\<close> command and to the POST, as functions of the moment
  (the number of effects performed so far).
\<close>

record environment =
  RESUME_SESSION_ID :: "string option"
  CALLBACK_URL :: "string option"
  sync_succeeds :: "nat \<Rightarrow> bool"
  post_result :: "nat \<Rightarrow> fetch_result"

definition emit :: "agent_message \<Rightarrow> effect list \<Rightarrow> effect list" where
  "emit msg tr = tr @ [Emit msg]"

text \<open>
  \<^verbatim>\<open>
  function flushVolume(): void {
    try { execSync("sync", { timeout: 10_000 }); } catch (e) { debug(...); }
  }
  \<close>
  Both branches return normally.
\<close>

definition flushVolume :: "environment \<Rightarrow> effect list \<Rightarrow> effect list" where
  "flushVolume env tr =
     (if sync_succeeds env (length tr) then tr @ [Sync True] else tr @ [Sync False])"

text \<open>
  \<^verbatim>\<open>
  async function callCallback(status, sessionId?, errorMessage?) {
    const callbackUrl = process.env.CALLBACK_URL;
    if (!callbackUrl) { console.error(...); return; }
    try {
      const response = await fetch(callbackUrl, { method: "POST", ...,
        body: JSON.stringify({ status, sessionId, errorMessage }) });
      if (!response.ok) { console.error(...); }
    } catch (error) { console.error(...); }
  }
  \<close>
  However the \<open>fetch\<close> ends, the function returns normally; the two failures are only
  logged.
\<close>

definition callCallback ::
  "environment \<Rightarrow> string \<Rightarrow> string option \<Rightarrow> string option \<Rightarrow> effect list \<Rightarrow> effect list" where
  "callCallback env status sessionId errorMessage tr =
     (if \<not> truthy (CALLBACK_URL env) then tr
      else tr @ [Post (the (CALLBACK_URL env))
                   \<lparr>cb_status = status, cb_sessionId = sessionId, cb_errorMessage = errorMessage\<rparr>
                   (post_result env (length tr))])"

text \<open>The frames, as the object literals of the source.\<close>

definition process_error :: "string \<Rightarrow> agent_message" where
  "process_error msg =
     \<lparr>m_type = ''process_error'', m_session_id = None, m_message = Some msg, m_result = None\<rparr>"

definition process_ready :: "string \<Rightarrow> agent_message" where
  "process_ready sid =
     \<lparr>m_type = ''process_ready'', m_session_id = Some sid, m_message = None, m_result = None\<rparr>"

definition session_started :: "string option \<Rightarrow> agent_message" where
  "session_started sid =
     \<lparr>m_type = ''session_started'', m_session_id = sid, m_message = None, m_result = None\<rparr>"

definition session_complete :: "string option \<Rightarrow> result_metrics \<Rightarrow> agent_message" where
  "session_complete sid r =
     \<lparr>m_type = ''session_complete'', m_session_id = sid, m_message = None, m_result = Some r\<rparr>"

definition process_stopped :: agent_message where
  "process_stopped =
     \<lparr>m_type = ''process_stopped'', m_session_id = None, m_message = None, m_result = None\<rparr>"

definition zero_metrics :: result_metrics where
  "zero_metrics =
     \<lparr>duration_ms = Some 0, duration_api_ms = Some 0, total_cost_usd = Some 0, num_turns = Some 0\<rparr>"

text \<open>
  The two tests of the loop body:
  \<open>message.type === "system" && message.subtype === "init"\<close> and
  \<open>"result" in message && message.type === "result"\<close>.
\<close>

definition is_init :: "sdk_message \<Rightarrow> bool" where
  "is_init message = (q_type message = ''system'' \<and> q_subtype message = Some ''init'')"

definition is_result :: "sdk_message \<Rightarrow> bool" where
  "is_result message = (q_has_result message \<and> q_type message = ''result'')"

text \<open>
  The loop \<open>for await (const message of query(...))\<close>. Its state is
  \<open>currentSessionId\<close>, \<open>gotResult\<close> and the effects so far; \<open>loop_body\<close> is one
  iteration, \<open>consume\<close> the iterations over the messages the sequence yields.
  \<^verbatim>\<open>
  if (message.type === "system" && message.subtype === "init") {
    currentSessionId = message.session_id;
    emit({ type: "session_started", session_id: currentSessionId });
  }
  if ("result" in message && message.type === "result") {
    gotResult = true;
    emit({ type: "session_complete", session_id: currentSessionId, result: {...} });
    flushVolume();
    await callCallback("completed", currentSessionId);
  }
  \<close>
\<close>

type_synonym loop_state = "string option \<times> bool \<times> effect list"

fun loop_body :: "environment \<Rightarrow> sdk_message \<Rightarrow> loop_state \<Rightarrow> loop_state" where
  "loop_body env message (currentSessionId, gotResult, tr) =
     (let (sid1, tr1) =
            (if is_init message
             then (q_session_id message, emit (session_started (q_session_id message)) tr)
             else (currentSessionId, tr))
      in if is_result message
         then (sid1, True,
               callCallback env ''completed'' sid1 None
                 (flushVolume env
                    (emit (session_complete sid1
                             \<lparr>duration_ms = q_duration_ms message,
                              duration_api_ms = q_duration_api_ms message,
                              total_cost_usd = q_total_cost_usd message,
                              num_turns = q_num_turns message\<rparr>) tr1)))
         else (sid1, gotResult, tr1))"

fun consume :: "environment \<Rightarrow> sdk_message list \<Rightarrow> loop_state \<Rightarrow> loop_state" where
  "consume env [] st = st"
| "consume env (message # rest) st = consume env rest (loop_body env message st)"

text \<open>
  The inputs of \<open>main\<close>.
  \<^item> What an awaited \<open>reader.readLine()\<close> does: it never settles (no line arrives and the
    stream stays open), or it settles with a line or with \<open>null\<close>.
  \<^item> What \<open>JSON.parse\<close> does on a line: it throws, it returns \<open>null\<close> (reading \<open>.type\<close>
    of it then throws a TypeError), or it returns a value whose fields are read.
  \<^item> How the sequence of \<open>query()\<close> ends after the messages it yields: it finishes, it
    throws an error with a message, or it never yields again.
\<close>

datatype read_outcome = NeverSettles | Settles "string option"

datatype parsed = SyntaxError | JsonNull | JsonValue command

datatype ending = Ends | Throws string | Hangs

definition null_type_error :: string where
  "null_type_error =
     ''Cannot read properties of null (reading '' @ [CHR 0x27] @ ''type'' @ [CHR 0x27] @ '')''"

text \<open>
  How the \<open>try\<close> block of \<open>main\<close> is left: by \<open>return\<close> or by reaching its end, by an
  exception (with its message), or never.
\<close>

datatype try_outcome = Returns "effect list" | Raises string "effect list" | Blocks "effect list"

text \<open>\<open>startMsg.session_id || resumeSessionId || undefined\<close>\<close>

definition sessionIdToResume :: "environment \<Rightarrow> command \<Rightarrow> string option" where
  "sessionIdToResume env startMsg =
     (if truthy (c_session_id startMsg) then c_session_id startMsg
      else if truthy (RESUME_SESSION_ID env) then RESUME_SESSION_ID env
      else None)"

text \<open>The part of the \<open>try\<close> block from \<open>let currentSessionId\<close> on.\<close>

definition run_query ::
  "environment \<Rightarrow> (string \<Rightarrow> string option \<Rightarrow> sdk_message list \<times> ending) \<Rightarrow>
     string \<Rightarrow> string option \<Rightarrow> effect list \<Rightarrow> try_outcome" where
  "run_query env query prompt resume tr =
     (case query prompt resume of (messages, ending) \<Rightarrow>
        (case consume env messages (resume, False, tr) of (currentSessionId, gotResult, tr1) \<Rightarrow>
           (case ending of
              Hangs \<Rightarrow> Blocks tr1
            | Throws err \<Rightarrow> Raises err tr1
            | Ends \<Rightarrow>
                if \<not> gotResult
                then Returns
                       (callCallback env ''completed'' currentSessionId None
                          (flushVolume env
                             (emit (session_complete currentSessionId zero_metrics) tr1)))
                else Returns tr1)))"

text \<open>The part of the \<open>try\<close> block that waits for the session message.\<close>

definition await_message ::
  "environment \<Rightarrow> (string \<Rightarrow> parsed) \<Rightarrow>
     (string \<Rightarrow> string option \<Rightarrow> sdk_message list \<times> ending) \<Rightarrow>
     read_outcome \<Rightarrow> string option \<Rightarrow> effect list \<Rightarrow> try_outcome" where
  "await_message env parse query second resume tr =
     (case second of
        NeverSettles \<Rightarrow> Blocks tr
      | Settles msgLine \<Rightarrow>
          if \<not> truthy msgLine
          then Returns (emit (process_error ''No session_message received'') tr)
          else
            (case parse (the msgLine) of
               SyntaxError \<Rightarrow> Returns (emit (process_error ''Invalid JSON for session_message'') tr)
             | JsonNull \<Rightarrow> Raises null_type_error tr
             | JsonValue sessionMsg \<Rightarrow>
                 if c_type sessionMsg \<noteq> Some ''session_message''
                 then Returns (emit (process_error ''Expected session_message'') tr)
                 else if parseContent sessionMsg = []
                 then Returns (emit (process_error ''Empty prompt'') tr)
                 else run_query env query (parseContent sessionMsg) resume tr))"

text \<open>The \<open>try\<close> block of \<open>main\<close>; \<open>first\<close> and \<open>second\<close> are its two awaited reads.\<close>

definition main_try ::
  "environment \<Rightarrow> (string \<Rightarrow> parsed) \<Rightarrow>
     (string \<Rightarrow> string option \<Rightarrow> sdk_message list \<times> ending) \<Rightarrow>
     read_outcome \<Rightarrow> read_outcome \<Rightarrow> try_outcome" where
  "main_try env parse query first second =
     (case first of
        NeverSettles \<Rightarrow> Blocks []
      | Settles startLine \<Rightarrow>
          if \<not> truthy startLine
          then Returns (emit (process_error ''No input received'') [])
          else
            (case parse (the startLine) of
               SyntaxError \<Rightarrow> Returns (emit (process_error ''Invalid JSON for process_start'') [])
             | JsonNull \<Rightarrow> Raises null_type_error []
             | JsonValue startMsg \<Rightarrow>
                 if c_type startMsg \<noteq> Some ''process_start''
                 then Returns (emit (process_error ''Expected process_start'') [])
                 else
                   await_message env parse query second (sessionIdToResume env startMsg)
                     (emit (process_ready
                              (case sessionIdToResume env startMsg of
                                 Some sid \<Rightarrow> sid | None \<Rightarrow> ''pending'')) [])))"

text \<open>
  \<^verbatim>\<open>
  } catch (error) {
    emit({ type: "process_error", message: errorMessage });
    flushVolume();
    await callCallback("error", undefined, errorMessage);
  } finally {
    rl.close();
    emit({ type: "process_stopped" });
  }
  \<close>
  A run of \<open>main\<close> is the effects it performed and whether \<open>main\<close> came to its end.
\<close>

record run =
  effects :: "effect list"
  finished :: bool

definition finally_block :: "effect list \<Rightarrow> run" where
  "finally_block tr = \<lparr>effects = emit process_stopped (tr @ [RlClose]), finished = True\<rparr>"

definition main ::
  "environment \<Rightarrow> (string \<Rightarrow> parsed) \<Rightarrow>
     (string \<Rightarrow> string option \<Rightarrow> sdk_message list \<times> ending) \<Rightarrow>
     read_outcome \<Rightarrow> read_outcome \<Rightarrow> run" where
  "main env parse query first second =
     (case main_try env parse query first second of
        Returns tr \<Rightarrow> finally_block tr
      | Raises errorMessage tr \<Rightarrow>
          finally_block (callCallback env ''error'' None (Some errorMessage)
                     (flushVolume env (emit (process_error errorMessage) tr)))
      | Blocks tr \<Rightarrow> \<lparr>effects = tr, finished = False\<rparr>)"

text \<open>The frames among the effects, in order.\<close>

fun frames :: "effect list \<Rightarrow> agent_message list" where
  "frames [] = []"
| "frames (Emit msg # es) = msg # frames es"
| "frames (e # es) = frames es"




text \<open>The bodies of the POSTs among the effects, in order.\<close>

fun posts :: "effect list \<Rightarrow> callback_body list" where
  "posts [] = []"
| "posts (Post url body res # es) = body # posts es"
| "posts (e # es) = posts es"

section \<open>The polling client (the component \<open>Home\<close>, in README.md from line 166 on)\<close>

text \<open>
  \<open>interface PendingMessage { id; content; timestamp }\<close>. Of an entry of the log
  (\<open>SessionEntry\<close>) the client reads \<open>type\<close> and \<open>message.content\<close>; of the answer of
  \<open>GET /api/conversations/:id\<close> (\<open>ConversationResponse\<close>) it reads \<open>status\<close>, \<open>messages\<close>
  and \<open>errorMessage\<close>.
\<close>

record pending_message =
  p_id :: string
  p_content :: string
  p_timestamp :: string

record session_entry =
  e_type :: string
  e_content :: message_content

record conversation_response =
  r_status :: string
  r_messages :: "session_entry list"
  r_errorMessage :: "string option"

text \<open>
  \<^verbatim>\<open>
  const hasPendingMatch = (pending, serverMsgs) =>
    serverMsgs.some((m) => m.type === "user" &&
                           getUserMessageText(m.message.content) === pending.content);
  \<close>
\<close>

definition hasPendingMatch :: "pending_message \<Rightarrow> session_entry list \<Rightarrow> bool" where
  "hasPendingMatch pending serverMsgs =
     list_ex (\<lambda>m. e_type m = ''user'' \<and> getUserMessageText (e_content m) = p_content pending)
       serverMsgs"

text \<open>
  The component: its six pieces of state that the polling code touches, its three refs,
  and what the browser holds for it: whether the polling effect has an interval
  installed (\<open>pollInterval\<close>), how many of the two timeouts of the refresh effect are still
  armed (\<open>refreshTimers\<close>), and how many polling fetches have been issued and have settled.
\<close>

record home =
  conversationId :: "string option"
  status :: string
  serverMessages :: "session_entry list"
  pendingMessages :: "pending_message list"
  errorMessage :: "string option"
  isSubmitting :: bool
  refreshTrigger :: nat
  postCompletionPollsRef :: nat
  isPollingRef :: bool
  prevPollDataRef :: "string \<times> nat"
  pollInterval :: bool
  refreshTimers :: nat
  requests :: nat
  responses :: nat

definition home_init :: home where
  "home_init =
     \<lparr>conversationId = None, status = ''idle'', serverMessages = [], pendingMessages = [],
      errorMessage = None, isSubmitting = False, refreshTrigger = 0,
      postCompletionPollsRef = 0, isPollingRef = False, prevPollDataRef = ([], 0),
      pollInterval = False, refreshTimers = 0, requests = 0, responses = 0\<rparr>"

definition isDone :: "string \<Rightarrow> bool" where
  "isDone st = (st = ''completed'' \<or> st = ''error'')"

text \<open>
  The body of the polling effect up to \<open>setInterval\<close>: whether it installs an interval.
  \<^verbatim>\<open>
  if (!conversationId) return;
  const isDone = status === "completed" || status === "error";
  if (isDone && (pendingMessages.length === 0 || postCompletionPollsRef.current >= 10)) return;
  if (!isDone && status !== "running") return;
  const pollInterval = setInterval(..., 2000);
  return () => clearInterval(pollInterval);
  \<close>
\<close>

definition polling_effect :: "home \<Rightarrow> bool" where
  "polling_effect s =
     (if \<not> truthy (conversationId s) then False
      else if isDone (status s) \<and>
              (length (pendingMessages s) = 0 \<or> 10 \<le> postCompletionPollsRef s) then False
      else if \<not> isDone (status s) \<and> status s \<noteq> ''running'' then False
      else True)"

text \<open>
  The refresh effect arms two timeouts when the status is completed or error:
  \<^verbatim>\<open>
  useEffect(() => {
    if (status !== "completed" && status !== "error") return;
    const timers = [ setTimeout(() => setRefreshTrigger((r) => r + 1), 2000),
                     setTimeout(() => setRefreshTrigger((r) => r + 1), 5000) ];
    return () => timers.forEach(clearTimeout);
  }, [status]);
  \<close>
\<close>

definition refresh_effect :: "home \<Rightarrow> nat" where
  "refresh_effect s = (if status s \<noteq> ''completed'' \<and> status s \<noteq> ''error'' then 0 else 2)"

text \<open>
  React after a state update from \<open>old\<close> to \<open>new\<close>: an effect is cleaned up and run
  again exactly when one of its dependencies changed. The polling effect depends on
  \<open>[conversationId, status, pendingMessages.length, hasPendingMatch]\<close> (the last is a
  \<open>useCallback\<close> that never changes), the refresh effect on \<open>[status]\<close>. A ref is not a
  dependency: writing \<open>postCompletionPollsRef.current\<close> runs no effect.
\<close>

definition rerender :: "home \<Rightarrow> home \<Rightarrow> home" where
  "rerender old new =
     (let s1 = (if conversationId new \<noteq> conversationId old \<or> status new \<noteq> status old \<or>
                   length (pendingMessages new) \<noteq> length (pendingMessages old)
                then new\<lparr>pollInterval := polling_effect new\<rparr> else new)
      in if status new \<noteq> status old then s1\<lparr>refreshTimers := refresh_effect new\<rparr> else s1)"

text \<open>
  The interval callback up to its \<open>await fetch\<close>:
  \<^verbatim>\<open>
  if (isPollingRef.current) return;
  isPollingRef.current = true;
  try { const response = await fetch(`/api/conversations/${conversationId}`); ...
  \<close>
  The timer only fires while the interval is installed.
\<close>

definition tick :: "home \<Rightarrow> home" where
  "tick s =
     (if \<not> pollInterval s then s
      else if isPollingRef s then s
      else s\<lparr>isPollingRef := True, requests := Suc (requests s)\<rparr>)"

text \<open>
  The body of \<open>if (response.ok) { ... }\<close>, on the parsed answer \<open>data\<close>:
  \<^verbatim>\<open>
  setServerMessages(data.messages);
  if (data.messages.length > 0) {
    setPendingMessages((prev) => prev.filter((p) => !hasPendingMatch(p, data.messages)));
  }
  if (data.status === "completed" || data.status === "error") postCompletionPollsRef.current++;
  setStatus(data.status);
  setErrorMessage(data.errorMessage || null);
  const prev = prevPollDataRef.current;
  if (data.status !== prev.status || data.messages.length !== prev.messagesLength) {
    setRefreshTrigger((r) => r + 1);
  }
  prevPollDataRef.current = { status: data.status, messagesLength: data.messages.length };
  \<close>
\<close>

definition apply_poll :: "conversation_response \<Rightarrow> home \<Rightarrow> home" where
  "apply_poll data s =
     s\<lparr>serverMessages := r_messages data,
       pendingMessages :=
         (if length (r_messages data) > 0
          then filter (\<lambda>p. \<not> hasPendingMatch p (r_messages data)) (pendingMessages s)
          else pendingMessages s),
       postCompletionPollsRef :=
         (if isDone (r_status data) then Suc (postCompletionPollsRef s)
          else postCompletionPollsRef s),
       status := r_status data,
       errorMessage := (if truthy (r_errorMessage data) then r_errorMessage data else None),
       refreshTrigger :=
         (if r_status data \<noteq> fst (prevPollDataRef s) \<or>
             length (r_messages data) \<noteq> snd (prevPollDataRef s)
          then Suc (refreshTrigger s) else refreshTrigger s),
       prevPollDataRef := (r_status data, length (r_messages data))\<rparr>"

text \<open>
  How a polling fetch settles: with an ok response and its parsed body, with a response
  that is not ok, or by throwing. In all three the \<open>finally\<close> block clears the flag:
  \<^verbatim>\<open>
  } catch (error) { console.error("Polling error:", error); }
  finally { isPollingRef.current = false; }
  \<close>
  Nothing settles when no fetch is outstanding.
\<close>

datatype settlement = Fetched conversation_response | HttpError | FetchFailed

definition settle :: "settlement \<Rightarrow> home \<Rightarrow> home" where
  "settle r s =
     (if requests s \<le> responses s then s
      else rerender s
             ((case r of Fetched data \<Rightarrow> apply_poll data s | HttpError \<Rightarrow> s | FetchFailed \<Rightarrow> s)
                \<lparr>isPollingRef := False, responses := Suc (responses s)\<rparr>))"

text \<open>One of the armed timeouts of the refresh effect fires.\<close>

definition refresh_timeout :: "home \<Rightarrow> home" where
  "refresh_timeout s =
     (if refreshTimers s = 0 then s
      else s\<lparr>refreshTrigger := Suc (refreshTrigger s), refreshTimers := refreshTimers s - 1\<rparr>)"

text \<open>
  \<open>handleSubmit\<close>, in its three parts: up to the POST (\<open>now\<close> is \<open>Date.now()\<close> as text,
  \<open>timestamp\<close> the ISO date), after an ok answer carrying the conversation id, and the \<open>catch\<close>
  branch.
  \<^verbatim>\<open>
  setIsSubmitting(true); setErrorMessage(null); postCompletionPollsRef.current = 0;
  const pendingId = `pending-${Date.now()}`;
  setPendingMessages((prev) => [...prev, { id: pendingId, content, timestamp }]);
  try { ...; setConversationId(data.conversationId); setStatus("running"); }
  catch (error) {
    setPendingMessages((prev) => prev.filter((m) => m.id !== pendingId));
    setErrorMessage(...);
  } finally { setIsSubmitting(false); }
  \<close>
\<close>

definition submit_begin :: "string \<Rightarrow> string \<Rightarrow> string \<Rightarrow> home \<Rightarrow> home" where
  "submit_begin content now timestamp s =
     rerender s
       (s\<lparr>isSubmitting := True, errorMessage := None, postCompletionPollsRef := 0,
          pendingMessages :=
            pendingMessages s @
              [\<lparr>p_id = ''pending-'' @ now, p_content = content, p_timestamp = timestamp\<rparr>]\<rparr>)"

definition submit_ok :: "string option \<Rightarrow> home \<Rightarrow> home" where
  "submit_ok cid s =
     rerender s (s\<lparr>conversationId := cid, status := ''running'', isSubmitting := False\<rparr>)"

definition submit_failed :: "string \<Rightarrow> string \<Rightarrow> home \<Rightarrow> home" where
  "submit_failed pendingId msg s =
     rerender s
       (s\<lparr>pendingMessages := filter (\<lambda>m. p_id m \<noteq> pendingId) (pendingMessages s),
          errorMessage := Some msg, isSubmitting := False\<rparr>)"

text \<open>What can happen to the component, in any order.\<close>

datatype home_event =
    Tick
  | Settle settlement
  | RefreshTimeout
  | SubmitBegin string string string
  | SubmitOk "string option"
  | SubmitFailed string string

fun home_step :: "home_event \<Rightarrow> home \<Rightarrow> home" where
  "home_step Tick s = tick s"
| "home_step (Settle r) s = settle r s"
| "home_step RefreshTimeout s = refresh_timeout s"
| "home_step (SubmitBegin content now timestamp) s = submit_begin content now timestamp s"
| "home_step (SubmitOk cid) s = submit_ok cid s"
| "home_step (SubmitFailed pendingId msg) s = submit_failed pendingId msg s"

fun run_home :: "home_event list \<Rightarrow> home \<Rightarrow> home" where
  "run_home [] s = s"
| "run_home (e # es) s = run_home es (home_step e s)"

section \<open>Notions used to state the properties\<close>

subsection \<open>Line reader\<close>

text \<open>
  The reader, the calls whose value was fixed and the calls that returned, after a
  sequence of events from the fresh reader.
\<close>

definition reader_after :: "lr_event list \<Rightarrow> line_reader" where
  "reader_after evs = fst (run_reader evs lr_init)"

definition handed_by :: "lr_event list \<Rightarrow> answer list" where
  "handed_by evs = handed (snd (run_reader evs lr_init))"

definition settled_by :: "lr_event list \<Rightarrow> answer list" where
  "settled_by evs = settled (snd (run_reader evs lr_init))"

text \<open>While a call waits, nothing is buffered and the stream is open.\<close>

definition waiting_inv :: "line_reader \<Rightarrow> bool" where
  "waiting_inv s = (lr_resolvers s \<noteq> [] \<longrightarrow> lr_lines s = [] \<and> \<not> lr_closed s)"

text \<open>The calls whose reaction job is queued, with the value.\<close>

fun reactions :: "job list \<Rightarrow> answer list" where
  "reactions [] = []"
| "reactions (Reaction k v # js) = (k, v) # reactions js"
| "reactions (ResolveThenable k # js) = reactions js"

text \<open>
  The bookkeeping of the calls, for the calls \<open>H\<close> whose value was fixed and the calls
  \<open>S\<close> that returned: values are fixed in call order and the waiting calls are the
  latest; a call whose value is fixed has returned, or its value waits for the
  subscription job, or its reaction job is queued, and only one of the three; a value
  that waits has its subscription job queued; a waiting call has subscribed or has its
  subscription job queued.
\<close>

definition delivery_inv :: "line_reader \<Rightarrow> answer list \<Rightarrow> answer list \<Rightarrow> bool" where
  "delivery_inv s H S =
     (map fst H @ lr_resolvers s = [0 ..< lr_calls s]
      \<and> set H = set S \<union> set (lr_fulfilled s) \<union> set (reactions (lr_jobs s))
      \<and> distinct (map fst (S @ lr_fulfilled s @ reactions (lr_jobs s)))
      \<and> (\<forall>a \<in> set (lr_fulfilled s). ResolveThenable (fst a) \<in> set (lr_jobs s))
      \<and> (\<forall>k \<in> set (lr_resolvers s).
            k \<in> set (lr_subscribed s) \<or> ResolveThenable k \<in> set (lr_jobs s)))"

text \<open>
  How many more jobs a queue can take to empty: a subscription job may queue a reaction
  job.
\<close>

fun weight :: "job list \<Rightarrow> nat" where
  "weight [] = 0"
| "weight (ResolveThenable k # js) = 2 + weight js"
| "weight (Reaction k v # js) = 1 + weight js"

text \<open>
  A run: a first call waits and subscribes; three lines arrive at once; a second call
  finds the second line buffered and returns before the first call's reaction job has
  run; a third call takes the third line; a fourth waits until the stream closes.
\<close>

definition overtaking_run :: "lr_event list" where
  "overtaking_run =
     [ReadLine, Microtask, Line ''a'', Line ''b'', Line ''c'', ReadLine, Microtask,
      ReadLine, ReadLine, Close, Microtask, Microtask]"

subsection \<open>Agent process\<close>

text \<open>The value of \<open>currentSessionId\<close> after the loop: the id of the last init message.\<close>

definition final_session_id :: "string option \<Rightarrow> sdk_message list \<Rightarrow> string option" where
  "final_session_id resume messages =
     foldl (\<lambda>sid message. if is_init message then q_session_id message else sid) resume messages"

text \<open>
  The two reads settle with non-empty lines that parse to a \<open>process_start\<close> frame and to a
  \<open>session_message\<close> frame with a non-empty prompt: the inputs with which \<open>main\<close> reaches
  \<open>query()\<close>.
\<close>

definition handshake ::
  "(string \<Rightarrow> parsed) \<Rightarrow> read_outcome \<Rightarrow> read_outcome \<Rightarrow> command \<Rightarrow> command \<Rightarrow> bool" where
  "handshake parse first second startMsg sessionMsg =
     (case first of
        Settles (Some l1) \<Rightarrow>
          l1 \<noteq> [] \<and> parse l1 = JsonValue startMsg \<and> c_type startMsg = Some ''process_start'' \<and>
          (case second of
             Settles (Some l2) \<Rightarrow>
               l2 \<noteq> [] \<and> parse l2 = JsonValue sessionMsg \<and>
               c_type sessionMsg = Some ''session_message'' \<and> parseContent sessionMsg \<noteq> []
           | _ \<Rightarrow> False)
      | _ \<Rightarrow> False)"

definition stopped_frames :: "effect list \<Rightarrow> agent_message list" where
  "stopped_frames tr = filter (\<lambda>m. m_type m = ''process_stopped'') (frames tr)"

definition complete_frames :: "effect list \<Rightarrow> agent_message list" where
  "complete_frames tr = filter (\<lambda>m. m_type m = ''session_complete'') (frames tr)"

fun outcome_effects :: "try_outcome \<Rightarrow> effect list" where
  "outcome_effects (Returns tr) = tr"
| "outcome_effects (Raises err tr) = tr"
| "outcome_effects (Blocks tr) = tr"

fun is_blocked :: "try_outcome \<Rightarrow> bool" where
  "is_blocked (Blocks tr) = True"
| "is_blocked out = False"


text \<open>
  A concrete run: the orchestrator sends \<open>start\<close> and \<open>hello\<close>, which parse to the two
  frames; the engine reports the session id \<open>abc\<close> and ends without a result; the
  \<open>sync\<close> command fails every time.
\<close>

definition demo_start :: command where
  "demo_start =
     \<lparr>c_type = Some ''process_start'', c_session_id = None, c_text = None, c_content = None\<rparr>"

definition demo_message :: command where
  "demo_message =
     \<lparr>c_type = Some ''session_message'', c_session_id = None, c_text = Some ''hello'',
      c_content = None\<rparr>"

definition demo_parse :: "string \<Rightarrow> parsed" where
  "demo_parse l =
     (if l = ''start'' then JsonValue demo_start
      else if l = ''hello'' then JsonValue demo_message
      else SyntaxError)"

definition demo_init :: sdk_message where
  "demo_init =
     \<lparr>q_type = ''system'', q_subtype = Some ''init'', q_session_id = Some ''abc'',
      q_has_result = False, q_duration_ms = None, q_duration_api_ms = None,
      q_total_cost_usd = None, q_num_turns = None\<rparr>"

definition demo_query :: "string \<Rightarrow> string option \<Rightarrow> sdk_message list \<times> ending" where
  "demo_query prompt resume = ([demo_init], Ends)"

definition demo_env :: environment where
  "demo_env =
     \<lparr>RESUME_SESSION_ID = None, CALLBACK_URL = Some ''http://orchestrator/callback'',
      sync_succeeds = (\<lambda>t. False), post_result = (\<lambda>t. ResponseOk)\<rparr>"

subsection \<open>Polling client\<close>

text \<open>
  At most one polling fetch is outstanding, and the busy flag says whether one is.
\<close>

definition busy_inv :: "home \<Rightarrow> bool" where
  "busy_inv s =
     (responses s \<le> requests s \<and> requests s \<le> Suc (responses s) \<and>
      isPollingRef s = (responses s < requests s))"

text \<open>
  An event that leaves the refresh signal alone when the snapshot is \<open>pair\<close>: anything but
  a timeout of the refresh effect and a poll whose answer has another status or count.
\<close>

fun quiet_event :: "string \<times> nat \<Rightarrow> home_event \<Rightarrow> bool" where
  "quiet_event pair (Settle (Fetched data)) = ((r_status data, length (r_messages data)) = pair)"
| "quiet_event pair RefreshTimeout = False"
| "quiet_event pair e = True"

text \<open>
  A concrete conversation: the user submits \<open>hi\<close>; the first poll already answers
  \<open>completed\<close> with one assistant entry and no user entry, and so does every later poll
  (\<open>poll_round\<close> is one timer tick and the settling of its fetch).
\<close>

definition reply_completed :: conversation_response where
  "reply_completed =
     \<lparr>r_status = ''completed'',
      r_messages = [\<lparr>e_type = ''assistant'', e_content = Str ''done''\<rparr>],
      r_errorMessage = None\<rparr>"

definition drain_prefix :: "home_event list" where
  "drain_prefix =
     [SubmitBegin ''hi'' ''1'' ''t'', SubmitOk (Some ''c1''), Tick, Settle (Fetched reply_completed)]"

definition poll_round :: "home_event list" where
  "poll_round = [Tick, Settle (Fetched reply_completed)]"

definition draining :: "home \<Rightarrow> bool" where
  "draining s =
     (pollInterval s \<and> \<not> isPollingRef s \<and> responses s = requests s \<and>
      status s = ''completed'' \<and> conversationId s = Some ''c1'' \<and>
      pendingMessages s = [\<lparr>p_id = ''pending-1'', p_content = ''hi'', p_timestamp = ''t''\<rparr>])"

section \<open>Properties of the text extraction\<close>

lemma truthy_simps: "truthy None = False" "truthy (Some s) = (s \<noteq> [])"
  by (simp_all add: truthy_def)

lemma join_separated:
  "join sep ss = (case ss of [] \<Rightarrow> [] | s # rest \<Rightarrow> s @ concat (map (\<lambda>t. sep @ t) rest))"
  by (induction sep ss rule: join.induct) simp_all

lemma join_newline_separated: "join newline ss = newline_separated ss"
  unfolding newline_separated_def by (rule join_separated)

lemma qualifying_texts:
  "map (\<lambda>b. the (b_text b)) (filter (\<lambda>b. b_type b = ''text'' \<and> truthy (b_text b)) bs) =
     segment_texts bs"
  by (induction bs) (auto simp: segment_texts_def truthy_def split: option.splits)

lemma segment_texts_text_segments:
  "segment_texts (map text_segment ss) = filter (\<lambda>s. s \<noteq> []) ss"
  by (induction ss) (simp_all add: segment_texts_def text_segment_def)

lemma segment_texts_append: "segment_texts (bs @ cs) = segment_texts bs @ segment_texts cs"
  by (simp add: segment_texts_def)

lemma segment_texts_Cons: "segment_texts (b # bs) = segment_texts [b] @ segment_texts bs"
  by (simp add: segment_texts_def)

lemma segment_texts_skipped:
  "b_type b \<noteq> ''text'' \<or> b_text b = None \<or> b_text b = Some [] \<Longrightarrow> segment_texts [b] = []"
  by (auto simp: segment_texts_def)

lemma newline_separated_short: "length ss \<le> 1 \<Longrightarrow> newline_separated ss = concat ss"
  by (cases ss) (simp_all add: newline_separated_def)

lemma parseContent_fallback:
  "\<not> truthy (c_text msg) \<Longrightarrow> c_content msg = Some bs \<Longrightarrow>
     parseContent msg = newline_separated (segment_texts bs)"
  by (simp add: parseContent_def qualifying_texts join_newline_separated)

text \<open>
  Claim C9, as the code has it. The text extracted from a content list is made of the
  texts of its text segments that have a non-empty text, in list order, with one newline
  between consecutive texts; \<open>getUserMessageText\<close> (pending-message matching) and
  \<open>parseContent\<close> (prompt extraction, when it falls back to the content list) agree on it.
  For a list of text segments \<open>[s1, ..., sn]\<close> the result is the non-empty \<open>si\<close> separated
  by newlines, and it is their plain concatenation when at most one text contributes.
\<close>

theorem extraction_joins_with_newlines:
  "getUserMessageText (Arr bs) = newline_separated (segment_texts bs)
   \<and> (\<not> truthy (c_text msg) \<and> c_content msg = Some bs \<longrightarrow>
        parseContent msg = newline_separated (segment_texts bs))
   \<and> getUserMessageText (Arr (map text_segment ss)) =
        newline_separated (filter (\<lambda>s. s \<noteq> []) ss)
   \<and> (length (segment_texts bs) \<le> 1 \<longrightarrow>
        getUserMessageText (Arr bs) = concat (segment_texts bs))"
  by (simp add: qualifying_texts join_newline_separated segment_texts_text_segments
      parseContent_fallback newline_separated_short)

theorem extraction_joins_with_newlines_witness:
  "\<not> truthy (c_text \<lparr>c_type = None, c_session_id = None, c_text = Some [],
                       c_content = Some [text_segment ''a'', text_segment ''b'']\<rparr>)
   \<and> parseContent \<lparr>c_type = None, c_session_id = None, c_text = Some [],
                    c_content = Some [text_segment ''a'', text_segment ''b'']\<rparr>
       = ''a'' @ newline @ ''b''
   \<and> getUserMessageText (Arr [text_segment ''a'', text_segment ''b'']) = ''a'' @ newline @ ''b''
   \<and> length (segment_texts [text_segment ''a'', text_segment []]) \<le> 1
   \<and> getUserMessageText (Arr [text_segment ''a'', text_segment []]) = ''a''"
  using extraction_joins_with_newlines
          [of "[text_segment ''a'', text_segment ''b'']"
              "\<lparr>c_type = None, c_session_id = None, c_text = Some [],
                c_content = Some [text_segment ''a'', text_segment ''b'']\<rparr>" "[]"]
        extraction_joins_with_newlines
          [of "[text_segment ''a'', text_segment []]"
              "\<lparr>c_type = None, c_session_id = None, c_text = None, c_content = None\<rparr>" "[]"]
  by (simp add: truthy_def segment_texts_def text_segment_def newline_separated_def)

text \<open>
  Claim C9 as it is stated fails: two text segments \<open>a\<close> and \<open>b\<close> are not extracted as
  the concatenation \<open>ab\<close>, since \<open>join("\n")\<close> puts a newline between them.
\<close>

theorem extraction_concat_counterexample:
  "getUserMessageText (Arr [text_segment ''a'', text_segment ''b'']) \<noteq> ''a'' @ ''b''"
  by (simp add: text_segment_def truthy_def newline_def)

text \<open>
  Claim C10. For a session message, \<open>parseContent\<close> returns the text field whenever it is a
  non-empty string, whatever the content list is. When the text is absent or empty it
  falls back to the content list: the result is built from the list's contributing
  texts only, so a segment whose type is not \<open>text\<close>, or whose text is missing or empty,
  can be dropped from the list without changing the result. When the content is absent
  as well, the result is the empty string.
\<close>

theorem parseContent_text_precedence:
  "(c_text msg = Some t \<and> t \<noteq> [] \<longrightarrow>
      parseContent msg = t \<and> parseContent (msg\<lparr>c_content := other\<rparr>) = t)
   \<and> ((c_text msg = None \<or> c_text msg = Some []) \<and> c_content msg = Some bs \<longrightarrow>
      parseContent msg = newline_separated (segment_texts bs))
   \<and> ((c_text msg = None \<or> c_text msg = Some []) \<and> c_content msg = Some (bs1 @ [b] @ bs2) \<and>
      (b_type b \<noteq> ''text'' \<or> b_text b = None \<or> b_text b = Some []) \<longrightarrow>
      parseContent msg = parseContent (msg\<lparr>c_content := Some (bs1 @ bs2)\<rparr>))
   \<and> ((c_text msg = None \<or> c_text msg = Some []) \<and> c_content msg = None \<longrightarrow>
      parseContent msg = [])"
proof (intro conjI impI)
  assume "c_text msg = Some t \<and> t \<noteq> []"
  then show "parseContent msg = t" and "parseContent (msg\<lparr>c_content := other\<rparr>) = t"
    by (simp_all add: parseContent_def truthy_def)
next
  assume "(c_text msg = None \<or> c_text msg = Some []) \<and> c_content msg = Some bs"
  then show "parseContent msg = newline_separated (segment_texts bs)"
    by (intro parseContent_fallback) (auto simp: truthy_def)
next
  assume a: "(c_text msg = None \<or> c_text msg = Some []) \<and> c_content msg = Some (bs1 @ [b] @ bs2) \<and>
      (b_type b \<noteq> ''text'' \<or> b_text b = None \<or> b_text b = Some [])"
  then have nt: "\<not> truthy (c_text msg)" by (auto simp: truthy_def)
  from a have skip: "segment_texts [b] = []" by (intro segment_texts_skipped) simp
  have mid: "segment_texts (bs1 @ [b] @ bs2) = segment_texts (bs1 @ bs2)"
    using skip segment_texts_Cons[of b bs2] by (simp add: segment_texts_append)
  have "parseContent msg = newline_separated (segment_texts (bs1 @ [b] @ bs2))"
    using a nt by (intro parseContent_fallback) simp_all
  moreover have "parseContent (msg\<lparr>c_content := Some (bs1 @ bs2)\<rparr>) =
      newline_separated (segment_texts (bs1 @ bs2))"
    using nt by (intro parseContent_fallback) simp_all
  ultimately show "parseContent msg = parseContent (msg\<lparr>c_content := Some (bs1 @ bs2)\<rparr>)"
    using mid by simp
next
  assume "(c_text msg = None \<or> c_text msg = Some []) \<and> c_content msg = None"
  then show "parseContent msg = []"
    by (auto simp: parseContent_def truthy_def)
qed

theorem parseContent_text_precedence_witness:
  "parseContent \<lparr>c_type = Some ''session_message'', c_session_id = None, c_text = Some ''hi'',
                  c_content = Some [text_segment ''other'']\<rparr> = ''hi''
   \<and> parseContent \<lparr>c_type = Some ''session_message'', c_session_id = None, c_text = Some [],
                    c_content = Some ([text_segment ''a''] @
                                      [\<lparr>b_type = ''image'', b_text = Some ''x''\<rparr>] @
                                      [text_segment ''b''])\<rparr>
       = parseContent \<lparr>c_type = Some ''session_message'', c_session_id = None, c_text = Some [],
                        c_content = Some ([text_segment ''a''] @ [text_segment ''b''])\<rparr>
   \<and> parseContent \<lparr>c_type = Some ''session_message'', c_session_id = None, c_text = None,
                    c_content = None\<rparr> = []"
  using parseContent_text_precedence
          [of "\<lparr>c_type = Some ''session_message'', c_session_id = None, c_text = Some ''hi'',
                c_content = Some [text_segment ''other'']\<rparr>" "''hi''" None "[]" "[]"
              "text_segment []" "[]"]
        parseContent_text_precedence
          [of "\<lparr>c_type = Some ''session_message'', c_session_id = None, c_text = Some [],
                c_content = Some ([text_segment ''a''] @
                                  [\<lparr>b_type = ''image'', b_text = Some ''x''\<rparr>] @
                                  [text_segment ''b''])\<rparr>" "[]" None "[]"
              "[text_segment ''a'']" "\<lparr>b_type = ''image'', b_text = Some ''x''\<rparr>"
              "[text_segment ''b'']"]
        parseContent_text_precedence
          [of "\<lparr>c_type = Some ''session_message'', c_session_id = None, c_text = None,
                c_content = None\<rparr>" "[]" None "[]" "[]" "text_segment []" "[]"]
  by simp

section \<open>Properties of the line reader\<close>

lemma returned_lines_simps:
  "returned_lines [] = []"
  "returned_lines ((k, Some l) # out) = l # returned_lines out"
  "returned_lines ((k, None) # out) = returned_lines out"
  "returned_lines (out @ out') = returned_lines out @ returned_lines out'"
  by (simp_all add: returned_lines_def List.map_filter_def)

lemma handed_append: "handed (xs @ ys) = handed xs @ handed ys"
  by (induction xs rule: handed.induct) simp_all

lemma settled_append: "settled (xs @ ys) = settled xs @ settled ys"
  by (induction xs rule: settled.induct) simp_all

lemma reactions_append: "reactions (xs @ ys) = reactions xs @ reactions ys"
  by (induction xs rule: reactions.induct) simp_all

lemma arrived_append: "arrived (es @ es') = arrived es @ arrived es'"
  by (induction es rule: arrived.induct) simp_all

lemma fulfil_fields:
  "lr_lines (fulfil k v s) = lr_lines s"
  "lr_resolvers (fulfil k v s) = lr_resolvers s"
  "lr_closed (fulfil k v s) = lr_closed s"
  "lr_calls (fulfil k v s) = lr_calls s"
  by (simp_all add: fulfil_def)

lemma drain_fields:
  "lr_lines (fst (drain rs s)) = lr_lines s"
  "lr_closed (fst (drain rs s)) = lr_closed s"
  "lr_calls (fst (drain rs s)) = lr_calls s"
  "lr_resolvers (fst (drain rs s)) = (if rs = [] then lr_resolvers s else [])"
  "handed (snd (drain rs s)) = map (\<lambda>r. (r, None)) rs"
  "settled (snd (drain rs s)) = []"
  by (induction rs arbitrary: s) (simp_all add: fulfil_fields Let_def)

lemma waiting_inv_init: "waiting_inv lr_init"
  by (simp add: waiting_inv_def lr_init_def)

lemma delivery_inv_init: "delivery_inv lr_init [] []"
  by (simp add: delivery_inv_def lr_init_def)

lemma lr_step_waiting: "waiting_inv s \<Longrightarrow> waiting_inv (fst (lr_step e s))"
  by (cases e)
     (auto simp: waiting_inv_def on_line_def on_close_def readLine_def microtask_def Let_def
        fulfil_fields drain_fields split: list.splits job.splits option.splits)

lemma distinct_upt_parts:
  assumes "map fst H @ r # rs = [0 ..< n]"
  shows "r \<notin> fst ` set H" "r \<notin> set rs" "distinct rs"
proof -
  have "distinct (map fst H @ r # rs)" unfolding assms by simp
  then show "r \<notin> fst ` set H" "r \<notin> set rs" "distinct rs" by auto
qed

lemma fulfil_delivery:
  assumes inv: "delivery_inv s H S" and rs: "lr_resolvers s = r # rs"
  shows "delivery_inv (fulfil r v (s\<lparr>lr_resolvers := rs\<rparr>)) (H @ [(r, v)]) S"
proof -
  from inv rs have ord: "map fst H @ r # rs = [0 ..< lr_calls s]"
    and acc: "set H = set S \<union> set (lr_fulfilled s) \<union> set (reactions (lr_jobs s))"
    and dis: "distinct (map fst (S @ lr_fulfilled s @ reactions (lr_jobs s)))"
    and ful: "\<forall>a \<in> set (lr_fulfilled s). ResolveThenable (fst a) \<in> set (lr_jobs s)"
    and sub: "\<forall>k \<in> set (r # rs). k \<in> set (lr_subscribed s) \<or> ResolveThenable k \<in> set (lr_jobs s)"
    by (simp_all add: delivery_inv_def)
  from distinct_upt_parts[OF ord] have new: "r \<notin> fst ` set H" and nrs: "r \<notin> set rs" by simp_all
  from new acc have fresh: "r \<notin> fst ` set S" "r \<notin> fst ` set (lr_fulfilled s)"
    "r \<notin> fst ` set (reactions (lr_jobs s))" by auto
  show ?thesis
  proof (cases "r \<in> set (lr_subscribed s)")
    case True
    with ord acc dis ful sub nrs fresh show ?thesis
      by (auto simp: delivery_inv_def fulfil_def reactions_append)
  next
    case False
    with ord acc dis ful sub nrs fresh show ?thesis
      by (auto simp: delivery_inv_def fulfil_def reactions_append)
  qed
qed

lemma delivery_inv_closed: "delivery_inv (s\<lparr>lr_closed := c\<rparr>) H S = delivery_inv s H S"
  by (simp add: delivery_inv_def)

lemma drain_delivery:
  "delivery_inv s H S \<Longrightarrow> lr_resolvers s = rs \<Longrightarrow>
     delivery_inv (fst (drain rs s)) (H @ map (\<lambda>r. (r, None)) rs) S"
proof (induction rs arbitrary: s H)
  case Nil
  then show ?case by simp
next
  case (Cons r rs)
  from fulfil_delivery[OF Cons.prems(1) Cons.prems(2), of None]
  have "delivery_inv (fulfil r None (s\<lparr>lr_resolvers := rs\<rparr>)) (H @ [(r, None)]) S" .
  from Cons.IH[OF this] show ?case by (simp add: fulfil_fields Let_def)
qed

lemma delivery_invI:
  assumes "map fst H @ lr_resolvers s = [0 ..< lr_calls s]"
    and "set H = set S \<union> set (lr_fulfilled s) \<union> set (reactions (lr_jobs s))"
    and "distinct (map fst (S @ lr_fulfilled s @ reactions (lr_jobs s)))"
    and "\<forall>a \<in> set (lr_fulfilled s). ResolveThenable (fst a) \<in> set (lr_jobs s)"
    and "\<forall>k \<in> set (lr_resolvers s). k \<in> set (lr_subscribed s) \<or> ResolveThenable k \<in> set (lr_jobs s)"
  shows "delivery_inv s H S"
  using assms by (simp add: delivery_inv_def)

lemma delivery_invD:
  assumes "delivery_inv s H S"
  shows "map fst H @ lr_resolvers s = [0 ..< lr_calls s]"
    and "set H = set S \<union> set (lr_fulfilled s) \<union> set (reactions (lr_jobs s))"
    and "distinct (map fst (S @ lr_fulfilled s @ reactions (lr_jobs s)))"
    and "\<forall>a \<in> set (lr_fulfilled s). ResolveThenable (fst a) \<in> set (lr_jobs s)"
    and "\<forall>k \<in> set (lr_resolvers s). k \<in> set (lr_subscribed s) \<or> ResolveThenable k \<in> set (lr_jobs s)"
  using assms by (simp_all add: delivery_inv_def)

lemma delivery_inv_lines: "delivery_inv (s\<lparr>lr_lines := ls\<rparr>) H S = delivery_inv s H S"
  by (simp add: delivery_inv_def)

lemma immediate_delivery:
  assumes inv: "delivery_inv s H S" and none: "lr_resolvers s = []"
  shows "delivery_inv (s\<lparr>lr_calls := Suc (lr_calls s)\<rparr>)
           (H @ [(lr_calls s, v)]) (S @ [(lr_calls s, v)])"
proof -
  note d = delivery_invD[OF inv]
  from d(1) none have h: "map fst H = [0 ..< lr_calls s]" by simp
  then have "lr_calls s \<notin> set (map fst H)" by simp
  then have new: "lr_calls s \<notin> fst ` set H" by simp
  with d(2) have fresh: "lr_calls s \<notin> fst ` set S" "lr_calls s \<notin> fst ` set (lr_fulfilled s)"
    "lr_calls s \<notin> fst ` set (reactions (lr_jobs s))" by auto
  show ?thesis
  proof (rule delivery_invI)
    show "map fst (H @ [(lr_calls s, v)]) @ lr_resolvers (s\<lparr>lr_calls := Suc (lr_calls s)\<rparr>)
        = [0 ..< lr_calls (s\<lparr>lr_calls := Suc (lr_calls s)\<rparr>)]"
      using h none by simp
    show "set (H @ [(lr_calls s, v)]) = set (S @ [(lr_calls s, v)]) \<union>
        set (lr_fulfilled (s\<lparr>lr_calls := Suc (lr_calls s)\<rparr>)) \<union>
        set (reactions (lr_jobs (s\<lparr>lr_calls := Suc (lr_calls s)\<rparr>)))"
      using d(2) by auto
    show "distinct (map fst ((S @ [(lr_calls s, v)]) @
        lr_fulfilled (s\<lparr>lr_calls := Suc (lr_calls s)\<rparr>) @
        reactions (lr_jobs (s\<lparr>lr_calls := Suc (lr_calls s)\<rparr>))))"
      using d(3) fresh by auto
  qed (use d(4,5) in simp_all)
qed

lemma waiting_delivery:
  assumes inv: "delivery_inv s H S"
  shows "delivery_inv (s\<lparr>lr_calls := Suc (lr_calls s), lr_resolvers := lr_resolvers s @ [lr_calls s],
                          lr_jobs := lr_jobs s @ [ResolveThenable (lr_calls s)]\<rparr>) H S"
proof -
  note d = delivery_invD[OF inv]
  show ?thesis
    by (rule delivery_invI) (use d in \<open>auto simp: reactions_append\<close>)
qed

lemma readLine_delivery:
  assumes w: "waiting_inv s" and inv: "delivery_inv s H S"
  shows "delivery_inv (fst (readLine s)) (H @ handed (snd (readLine s)))
           (S @ settled (snd (readLine s)))"
proof (cases "lr_lines s")
  case (Cons l ls)
  with w have "lr_resolvers s = []" by (auto simp: waiting_inv_def)
  from immediate_delivery[OF inv this, of "Some l"] Cons show ?thesis
    by (simp add: readLine_def Let_def delivery_inv_lines)
next
  case Nil
  show ?thesis
  proof (cases "lr_closed s")
    case True
    with w have "lr_resolvers s = []" by (auto simp: waiting_inv_def)
    from immediate_delivery[OF inv this, of None] Nil True show ?thesis
      by (simp add: readLine_def Let_def)
  next
    case False
    with waiting_delivery[OF inv] Nil show ?thesis
      by (simp add: readLine_def Let_def)
  qed
qed

lemma microtask_delivery:
  assumes inv: "delivery_inv s H S"
  shows "delivery_inv (fst (microtask s)) (H @ handed (snd (microtask s)))
           (S @ settled (snd (microtask s)))"
proof (cases "lr_jobs s")
  case Nil
  with inv show ?thesis by (simp add: microtask_def)
next
  case (Cons j js)
  note d = delivery_invD[OF inv]
  show ?thesis
  proof (cases j)
    case (Reaction k v)
    have st: "microtask s = (s\<lparr>lr_jobs := js\<rparr>, [Settled k v])"
      using Cons Reaction by (simp add: microtask_def)
    have "delivery_inv (s\<lparr>lr_jobs := js\<rparr>) H (S @ [(k, v)])"
    proof (rule delivery_invI)
      show "set H = set (S @ [(k, v)]) \<union> set (lr_fulfilled (s\<lparr>lr_jobs := js\<rparr>)) \<union>
          set (reactions (lr_jobs (s\<lparr>lr_jobs := js\<rparr>)))"
        using d(2) Cons Reaction by auto
      show "distinct (map fst ((S @ [(k, v)]) @ lr_fulfilled (s\<lparr>lr_jobs := js\<rparr>) @
          reactions (lr_jobs (s\<lparr>lr_jobs := js\<rparr>))))"
        using d(3) Cons Reaction by auto
      show "\<forall>a \<in> set (lr_fulfilled (s\<lparr>lr_jobs := js\<rparr>)).
          ResolveThenable (fst a) \<in> set (lr_jobs (s\<lparr>lr_jobs := js\<rparr>))"
        using d(4) Cons Reaction by auto
      show "\<forall>k \<in> set (lr_resolvers (s\<lparr>lr_jobs := js\<rparr>)).
          k \<in> set (lr_subscribed (s\<lparr>lr_jobs := js\<rparr>)) \<or>
          ResolveThenable k \<in> set (lr_jobs (s\<lparr>lr_jobs := js\<rparr>))"
        using d(5) Cons Reaction by auto
    qed (use d(1) in simp)
    then show ?thesis by (simp add: st)
  next
    case (ResolveThenable k)
    show ?thesis
    proof (cases "map_of (lr_fulfilled s) k")
      case None
      then have nk: "k \<notin> fst ` set (lr_fulfilled s)" by (simp add: map_of_eq_None_iff)
      let ?s' = "s\<lparr>lr_subscribed := lr_subscribed s @ [k], lr_jobs := js\<rparr>"
      have st: "microtask s = (?s', [])"
        using Cons ResolveThenable None by (simp add: microtask_def)
      have "delivery_inv ?s' H S"
      proof (rule delivery_invI)
        show "set H = set S \<union> set (lr_fulfilled ?s') \<union> set (reactions (lr_jobs ?s'))"
          using d(2) Cons ResolveThenable by simp
        show "distinct (map fst (S @ lr_fulfilled ?s' @ reactions (lr_jobs ?s')))"
          using d(3) Cons ResolveThenable by simp
        show "\<forall>a \<in> set (lr_fulfilled ?s'). ResolveThenable (fst a) \<in> set (lr_jobs ?s')"
          using d(4) nk Cons ResolveThenable by auto
        show "\<forall>k' \<in> set (lr_resolvers ?s').
            k' \<in> set (lr_subscribed ?s') \<or> ResolveThenable k' \<in> set (lr_jobs ?s')"
          using d(5) Cons ResolveThenable by auto
      qed (use d(1) in simp)
      then show ?thesis by (simp add: st)
    next
      case (Some v)
      then have mem: "(k, v) \<in> set (lr_fulfilled s)" by (rule map_of_SomeD)
      let ?f' = "filter (\<lambda>a. fst a \<noteq> k) (lr_fulfilled s)"
      let ?s' = "s\<lparr>lr_fulfilled := ?f', lr_jobs := js @ [Reaction k v]\<rparr>"
      have st: "microtask s = (?s', [])"
        using Cons ResolveThenable Some by (simp add: microtask_def)
      from d(3) have df: "distinct (map fst (lr_fulfilled s))" by simp
      have only: "a = (k, v)" if "a \<in> set (lr_fulfilled s)" "fst a = k" for a
      proof -
        have eq: "a = (k, snd a)" using that(2) by (simp add: prod_eq_iff)
        with that(1) have "(k, snd a) \<in> set (lr_fulfilled s)" by simp
        from eq_key_imp_eq_value[OF df mem this] eq show ?thesis by simp
      qed
      have f_split: "set (lr_fulfilled s) = insert (k, v) (set ?f')"
      proof (intro equalityI subsetI)
        fix a assume a: "a \<in> set (lr_fulfilled s)"
        show "a \<in> insert (k, v) (set ?f')"
        proof (cases "fst a = k")
          case True
          with only[OF a] show ?thesis by simp
        next
          case False
          with a show ?thesis by simp
        qed
      next
        fix a assume "a \<in> insert (k, v) (set ?f')"
        with mem show "a \<in> set (lr_fulfilled s)" by auto
      qed
      have r_old: "reactions (lr_jobs s) = reactions js"
        using Cons ResolveThenable by simp
      have r_new: "set (reactions (js @ [Reaction k v])) = insert (k, v) (set (reactions js))"
        by (simp add: reactions_append)
      have split: "set S \<union> set (lr_fulfilled s) \<union> set (reactions (lr_jobs s)) =
          set S \<union> set ?f' \<union> set (reactions (js @ [Reaction k v]))"
        unfolding r_old r_new by (subst f_split) blast
      have kf: "k \<in> set (map fst (lr_fulfilled s))" using mem by force
      from mem d(2) have "k \<in> set (map fst H)" by force
      moreover have "distinct (map fst H @ lr_resolvers s)" unfolding d(1) by simp
      ultimately have kres: "k \<notin> set (lr_resolvers s)" by auto
      from d(3) have "set (map fst S) \<inter> set (map fst (lr_fulfilled s)) = {}"
        and "set (map fst (lr_fulfilled s)) \<inter> set (map fst (reactions (lr_jobs s))) = {}"
        by auto
      with kf have kS: "k \<notin> set (map fst S)"
        and kR: "k \<notin> set (map fst (reactions (lr_jobs s)))" by blast+
      have "delivery_inv ?s' H S"
      proof (rule delivery_invI)
        show "set H = set S \<union> set (lr_fulfilled ?s') \<union> set (reactions (lr_jobs ?s'))"
          using d(2) split by simp
        have d1: "distinct (map fst ?f')" using df by (simp add: distinct_map_filter)
        have d2: "k \<notin> set (map fst ?f')" by auto
        have d3: "set (map fst ?f') \<subseteq> set (map fst (lr_fulfilled s))" by auto
        from d(3) have parts: "distinct (map fst S)" "distinct (map fst (reactions js))"
          "set (map fst S) \<inter> set (map fst (lr_fulfilled s)) = {}"
          "set (map fst S) \<inter> set (map fst (reactions js)) = {}"
          "set (map fst (lr_fulfilled s)) \<inter> set (map fst (reactions js)) = {}"
          unfolding r_old by auto
        from kR have kR': "k \<notin> set (map fst (reactions js))" unfolding r_old .
        have "distinct (map fst S @ map fst ?f' @ map fst (reactions js) @ [k])"
          using d1 d2 d3 parts kS kR' by (simp only: distinct_append) auto
        then show "distinct (map fst (S @ lr_fulfilled ?s' @ reactions (lr_jobs ?s')))"
          by (simp add: reactions_append)
        show "\<forall>a \<in> set (lr_fulfilled ?s'). ResolveThenable (fst a) \<in> set (lr_jobs ?s')"
          using d(4) Cons ResolveThenable by auto
        show "\<forall>k' \<in> set (lr_resolvers ?s').
            k' \<in> set (lr_subscribed ?s') \<or> ResolveThenable k' \<in> set (lr_jobs ?s')"
          using d(5) kres Cons ResolveThenable by auto
      qed (use d(1) in simp)
      then show ?thesis by (simp add: st)
    qed
  qed
qed

lemma lr_step_delivery:
  assumes w: "waiting_inv s" and inv: "delivery_inv s H S"
  shows "delivery_inv (fst (lr_step e s)) (H @ handed (snd (lr_step e s)))
           (S @ settled (snd (lr_step e s)))"
proof (cases e)
  case (Line l)
  show ?thesis
  proof (cases "lr_resolvers s")
    case Nil
    with Line inv show ?thesis by (simp add: on_line_def delivery_inv_lines)
  next
    case (Cons r rs)
    with Line fulfil_delivery[OF inv Cons, of "Some l"] show ?thesis by (simp add: on_line_def)
  qed
next
  case Close
  have "delivery_inv (s\<lparr>lr_closed := True\<rparr>) H S" using inv by (simp add: delivery_inv_closed)
  from drain_delivery[OF this, of "lr_resolvers s"] Close show ?thesis
    by (simp add: on_close_def drain_fields)
next
  case ReadLine
  with readLine_delivery[OF w inv] show ?thesis by simp
next
  case Microtask
  with microtask_delivery[OF inv] show ?thesis by simp
qed

lemma lr_step_lines:
  "waiting_inv s \<Longrightarrow>
     lr_lines s @ arrived [e] =
       returned_lines (handed (snd (lr_step e s))) @ lr_lines (fst (lr_step e s))"
  by (cases e)
     (auto simp: waiting_inv_def on_line_def on_close_def readLine_def microtask_def Let_def
        fulfil_fields drain_fields returned_lines_simps returned_lines_def List.map_filter_def
        split: list.splits job.splits option.splits)

lemma lr_step_null:
  "waiting_inv s \<Longrightarrow> (k, None) \<in> set (handed (snd (lr_step e s))) \<Longrightarrow>
     lr_closed (fst (lr_step e s)) \<and> lr_lines (fst (lr_step e s)) = []"
  by (cases e)
     (auto simp: waiting_inv_def on_line_def on_close_def readLine_def microtask_def Let_def
        fulfil_fields drain_fields split: list.splits job.splits option.splits if_splits)

lemma lr_step_closed: "lr_closed s \<Longrightarrow> lr_closed (fst (lr_step e s))"
  by (cases e)
     (auto simp: on_line_def on_close_def readLine_def microtask_def Let_def
        fulfil_fields drain_fields split: list.splits job.splits option.splits)

lemma run_reader_append:
  "run_reader (es @ es') s =
     (fst (run_reader es' (fst (run_reader es s))),
      snd (run_reader es s) @ snd (run_reader es' (fst (run_reader es s))))"
  by (induction es arbitrary: s) (simp_all split: prod.splits)

lemma run_reader_Cons:
  "fst (run_reader (e # es) s) = fst (run_reader es (fst (lr_step e s)))"
  "snd (run_reader (e # es) s) = snd (lr_step e s) @ snd (run_reader es (fst (lr_step e s)))"
  by (simp_all split: prod.splits)

lemma run_reader_waiting: "waiting_inv s \<Longrightarrow> waiting_inv (fst (run_reader es s))"
  by (induction es arbitrary: s) (simp_all add: run_reader_Cons lr_step_waiting del: run_reader.simps(2))

lemma run_reader_delivery:
  "waiting_inv s \<Longrightarrow> delivery_inv s H S \<Longrightarrow>
     delivery_inv (fst (run_reader es s)) (H @ handed (snd (run_reader es s)))
       (S @ settled (snd (run_reader es s)))"
proof (induction es arbitrary: s H S)
  case Nil
  then show ?case by simp
next
  case (Cons e es)
  from Cons.IH[OF lr_step_waiting[OF Cons.prems(1), of e] lr_step_delivery[OF Cons.prems, of e]]
  show ?case by (simp add: run_reader_Cons handed_append settled_append del: run_reader.simps(2))
qed

lemma run_reader_lines:
  "waiting_inv s \<Longrightarrow>
   lr_lines s @ arrived es =
     returned_lines (handed (snd (run_reader es s))) @ lr_lines (fst (run_reader es s))"
proof (induction es arbitrary: s)
  case Nil
  then show ?case by (simp add: returned_lines_simps)
next
  case (Cons e es)
  have a: "arrived (e # es) = arrived [e] @ arrived es"
    using arrived_append[of "[e]" es] by simp
  have "lr_lines s @ arrived [e] @ arrived es =
      returned_lines (handed (snd (lr_step e s))) @ lr_lines (fst (lr_step e s)) @ arrived es"
    using lr_step_lines[OF Cons.prems, of e] by simp
  also have "\<dots> = returned_lines (handed (snd (lr_step e s))) @
      returned_lines (handed (snd (run_reader es (fst (lr_step e s))))) @
      lr_lines (fst (run_reader es (fst (lr_step e s))))"
    using Cons.IH[OF lr_step_waiting[OF Cons.prems], of e] by simp
  finally show ?case
    by (simp add: a run_reader_Cons handed_append returned_lines_simps del: run_reader.simps(2) arrived.simps)
qed

lemma run_reader_closed: "lr_closed s \<Longrightarrow> lr_closed (fst (run_reader es s))"
  by (induction es arbitrary: s) (simp_all add: run_reader_Cons lr_step_closed del: run_reader.simps(2))

text \<open>
  When values are fixed in call order, the line of a call is the arrived line whose
  position is the number of lines fixed for earlier calls.
\<close>

lemma filter_below_take:
  "map fst H = [0 ..< n] \<Longrightarrow> filter (\<lambda>a. fst a < k) H = take k H"
proof (induction H arbitrary: n rule: rev_induct)
  case Nil
  then show ?case by simp
next
  case (snoc x H)
  from snoc.prems have len: "n = Suc (length H)"
    by (metis length_map length_upt diff_zero length_append_singleton)
  with snoc.prems have "map fst H @ [fst x] = [0 ..< length H] @ [length H]" by simp
  then have h: "map fst H = [0 ..< length H]" and x: "fst x = length H" by simp_all
  from snoc.IH[OF h] x show ?case by (cases "length H < k") simp_all
qed

lemma fst_nth_indexed:
  assumes "map fst H = [0 ..< length H]" "j < length H"
  shows "fst (H ! j) = j"
proof -
  have "fst (H ! j) = map fst H ! j" using assms(2) by simp
  also have "\<dots> = [0 ..< length H] ! j" by (simp only: assms(1))
  also have "\<dots> = j" using assms(2) by simp
  finally show ?thesis .
qed

lemma nth_indexed:
  assumes "map fst H = [0 ..< length H]" "(k, v) \<in> set H"
  shows "k < length H \<and> H ! k = (k, v)"
proof -
  from assms(2) obtain i where i: "i < length H" "H ! i = (k, v)" by (auto simp: in_set_conv_nth)
  from fst_nth_indexed[OF assms(1) i(1)] i(2) have "i = k" by simp
  with i show ?thesis by simp
qed

lemma returned_lines_all_some:
  "\<forall>a \<in> set xs. snd a \<noteq> None \<Longrightarrow> length (returned_lines xs) = length xs"
  by (induction xs) (auto simp: returned_lines_def List.map_filter_def)

lemma indexed_prefix:
  assumes "map fst H @ rs = [0 ..< n]"
  shows "map fst H = [0 ..< length H]"
proof -
  have "length (map fst H @ rs) = n" by (simp only: assms) simp
  then have le: "length H \<le> n" by simp
  have "take (length H) (map fst H @ rs) = map fst H" by simp
  then have "map fst H = take (length H) [0 ..< n]" by (simp only: assms)
  with le show ?thesis by (simp add: take_upt)
qed

lemma rank_line:
  assumes idx: "map fst H @ rs = [0 ..< n]"
    and lines: "returned_lines H @ buf = arr"
    and mem: "(k, Some l) \<in> set H"
  shows "l = arr ! length (returned_lines (filter (\<lambda>a. fst a < k) H))"
    and "(\<forall>j<k. (j, None) \<notin> set H) \<Longrightarrow> l = arr ! k"
proof -
  note h = indexed_prefix[OF idx]
  from nth_indexed[OF h mem] have k: "k < length H" and hk: "H ! k = (k, Some l)" by simp_all
  have "H ! k # drop (Suc k) H = drop k H" by (rule Cons_nth_drop_Suc[OF k])
  then have dec: "take k H @ (k, Some l) # drop (Suc k) H = H"
    by (simp only: hk append_take_drop_id)
  have "returned_lines H = returned_lines (take k H @ (k, Some l) # drop (Suc k) H)"
    by (simp only: dec)
  also have "\<dots> = returned_lines (take k H) @ l # returned_lines (drop (Suc k) H)"
    by (simp only: returned_lines_simps)
  finally have "arr = returned_lines (take k H) @ l # (returned_lines (drop (Suc k) H) @ buf)"
    using lines by simp
  then have nth: "arr ! length (returned_lines (take k H)) = l"
    by (simp only: nth_append_length)
  show "l = arr ! length (returned_lines (filter (\<lambda>a. fst a < k) H))"
    using nth by (simp only: filter_below_take[OF h])
  assume nonull: "\<forall>j<k. (j, None) \<notin> set H"
  have "\<forall>a \<in> set (take k H). snd a \<noteq> None"
  proof
    fix a assume "a \<in> set (take k H)"
    then obtain j where j: "j < k" and a: "a = H ! j" using k
      by (auto simp: in_set_conv_nth)
    from j k have jl: "j < length H" by simp
    then have inH: "H ! j \<in> set H" by simp
    have "H ! j = (j, snd (H ! j))"
      using fst_nth_indexed[OF h jl] by (simp add: prod_eq_iff)
    with inH have "(j, snd (H ! j)) \<in> set H" by simp
    
    moreover from nonull j have "(j, None) \<notin> set H" by blast
    ultimately have "snd (H ! j) \<noteq> None" by (cases "snd (H ! j)") simp_all
    with a show "snd a \<noteq> None" by simp
  qed
  from returned_lines_all_some[OF this] k have "length (returned_lines (take k H)) = k" by simp
  with nth show "l = arr ! k" by simp
qed

text \<open>Running the queued jobs empties the queue, and fixes no value.\<close>

lemma weight_append: "weight (xs @ ys) = weight xs + weight ys"
  by (induction xs rule: weight.induct) simp_all

lemma weight_le: "weight js \<le> 2 * length js"
  by (induction js rule: weight.induct) simp_all

lemma microtask_weight:
  "lr_jobs s \<noteq> [] \<Longrightarrow> weight (lr_jobs (fst (microtask s))) < weight (lr_jobs s)"
  by (auto simp: microtask_def weight_append split: list.splits job.splits option.splits)

lemma microtask_idle: "lr_jobs s = [] \<Longrightarrow> microtask s = (s, [])"
  by (simp add: microtask_def)

lemma microtask_handed: "handed (snd (microtask s)) = []"
  by (auto simp: microtask_def split: list.splits job.splits option.splits)

lemma microtasks_drain:
  "weight (lr_jobs s) \<le> n \<Longrightarrow> lr_jobs (fst (run_reader (replicate n Microtask) s)) = []"
proof (induction n arbitrary: s)
  case 0
  then have "lr_jobs s = []" by (cases "lr_jobs s" rule: weight.cases) simp_all
  then show ?case by simp
next
  case (Suc n)
  show ?case
  proof (cases "lr_jobs s = []")
    case True
    with Suc.IH[of s] show ?thesis
      by (simp add: run_reader_Cons microtask_idle del: run_reader.simps(2))
  next
    case False
    from microtask_weight[OF False] Suc.prems
    have "weight (lr_jobs (fst (microtask s))) \<le> n" by simp
    from Suc.IH[OF this] show ?thesis
      by (simp add: run_reader_Cons del: run_reader.simps(2))
  qed
qed

lemma microtasks_handed: "handed (snd (run_reader (replicate n Microtask) s)) = []"
  by (induction n arbitrary: s)
     (simp_all add: run_reader_Cons handed_append microtask_handed del: run_reader.simps(2))

lemma run_reader_null_closed:
  "waiting_inv s \<Longrightarrow> (k, None) \<in> set (handed (snd (run_reader es s))) \<Longrightarrow>
     lr_closed (fst (run_reader es s))"
proof (induction es arbitrary: s)
  case Nil
  then show ?case by simp
next
  case (Cons e es)
  from Cons.prems(2) have "(k, None) \<in> set (handed (snd (lr_step e s))) \<or>
      (k, None) \<in> set (handed (snd (run_reader es (fst (lr_step e s)))))"
    by (simp add: run_reader_Cons handed_append del: run_reader.simps(2))
  then show ?case
  proof
    assume "(k, None) \<in> set (handed (snd (lr_step e s)))"
    from lr_step_null[OF Cons.prems(1) this] have "lr_closed (fst (lr_step e s))" by simp
    from run_reader_closed[OF this] show ?thesis
      by (simp add: run_reader_Cons del: run_reader.simps(2))
  next
    assume "(k, None) \<in> set (handed (snd (run_reader es (fst (lr_step e s)))))"
    from Cons.IH[OF lr_step_waiting[OF Cons.prems(1)] this] show ?thesis
      by (simp add: run_reader_Cons del: run_reader.simps(2))
  qed
qed

lemma reader_delivery: "delivery_inv (reader_after evs) (handed_by evs) (settled_by evs)"
  using run_reader_delivery[OF waiting_inv_init delivery_inv_init, of evs]
  by (simp add: reader_after_def handed_by_def settled_by_def)

lemma reader_waiting: "waiting_inv (reader_after evs)"
  using run_reader_waiting[OF waiting_inv_init, of evs] by (simp add: reader_after_def)

lemma reader_lines: "returned_lines (handed_by evs) @ lr_lines (reader_after evs) = arrived evs"
  using run_reader_lines[OF waiting_inv_init, of evs]
  by (simp add: reader_after_def handed_by_def lr_init_def)

lemma settled_handed: "set (settled_by evs) \<subseteq> set (handed_by evs)"
  using delivery_invD(2)[OF reader_delivery[of evs]] by blast

lemma reader_after_append:
  "reader_after (evs @ evs') = fst (run_reader evs' (reader_after evs))"
  by (simp add: reader_after_def run_reader_append)

lemma handed_by_append:
  "handed_by (evs @ evs') = handed_by evs @ handed (snd (run_reader evs' (reader_after evs)))"
  by (simp add: reader_after_def handed_by_def run_reader_append handed_append)

lemma overtaking_run_result:
  "run_reader overtaking_run lr_init =
   (\<lparr>lr_lines = [], lr_resolvers = [], lr_closed = True, lr_calls = 4,
      lr_subscribed = [], lr_fulfilled = [], lr_jobs = []\<rparr>,
    [Handed 0 (Some ''a''), Handed 1 (Some ''b''), Settled 1 (Some ''b''),
     Settled 0 (Some ''a''), Handed 2 (Some ''c''), Settled 2 (Some ''c''),
     Handed 3 None, Settled 3 None])"
  by (simp add: overtaking_run_def lr_init_def on_line_def on_close_def readLine_def
      microtask_def fulfil_def Let_def)

lemma overtaking_run_close:
  "overtaking_run ! 9 = Close"
  "lr_step Close (reader_after (take 9 overtaking_run)) =
   (\<lparr>lr_lines = [], lr_resolvers = [], lr_closed = True, lr_calls = 4,
      lr_subscribed = [], lr_fulfilled = [(3, None)], lr_jobs = [ResolveThenable 3]\<rparr>,
    [Handed 3 None])"
  by (simp_all add: overtaking_run_def reader_after_def lr_init_def on_line_def on_close_def
      readLine_def microtask_def fulfil_def Let_def)

text \<open>
  Claim C1. Take any sequence of line arrivals, stream closures, \<open>readLine\<close> calls and
  runs of queued jobs, from a fresh reader.
  \<^item> A call that returns a line returns the arrived line whose position is the number
    of lines fixed for earlier calls; when no earlier call got \<open>null\<close>, call \<open>k\<close> returns
    line \<open>k\<close>. Calls may return to their callers in another order than they were made
    (a call served from the buffer overtakes an earlier call whose reaction job is
    still queued); the line each call returns does not depend on that.
  \<^item> Values are fixed in call order, the calls without a value being the latest, and
    the lines fixed, in call order, followed by the lines still buffered, are exactly
    the lines that arrived, in arrival order: none is lost, none is given twice.
  \<^item> A call returns only the value fixed for it, and at most once; when no job is
    queued every call with a value has returned it; running the queued jobs (twice
    their number is enough) empties the queue, and fixes no further value.
  \<^item> At every step at which \<open>null\<close> is fixed for a call, the stream is closed and no
    line is buffered; a call that has returned \<open>null\<close> did so with the stream closed.
  \<^item> Once the stream is closed no call is left waiting.
\<close>

theorem readLine_fifo:
  "(\<forall>k l. (k, Some l) \<in> set (settled_by evs) \<longrightarrow>
       l = arrived evs ! length (returned_lines (filter (\<lambda>a. fst a < k) (handed_by evs))))
   \<and> (\<forall>k l. (k, Some l) \<in> set (settled_by evs) \<and> (\<forall>j<k. (j, None) \<notin> set (handed_by evs)) \<longrightarrow>
       l = arrived evs ! k)
   \<and> map fst (handed_by evs) @ lr_resolvers (reader_after evs) = [0 ..< lr_calls (reader_after evs)]
   \<and> returned_lines (handed_by evs) @ lr_lines (reader_after evs) = arrived evs
   \<and> set (settled_by evs) \<subseteq> set (handed_by evs)
   \<and> distinct (map fst (settled_by evs))
   \<and> (lr_jobs (reader_after evs) = [] \<longrightarrow> set (settled_by evs) = set (handed_by evs))
   \<and> lr_jobs (reader_after (evs @ replicate (2 * length (lr_jobs (reader_after evs))) Microtask)) = []
   \<and> handed_by (evs @ replicate n Microtask) = handed_by evs
   \<and> (\<forall>m < length evs. \<forall>k.
        (k, None) \<in> set (handed (snd (lr_step (evs ! m) (reader_after (take m evs))))) \<longrightarrow>
        lr_closed (fst (lr_step (evs ! m) (reader_after (take m evs)))) \<and>
        lr_lines (fst (lr_step (evs ! m) (reader_after (take m evs)))) = [])
   \<and> (\<forall>k. (k, None) \<in> set (settled_by evs) \<longrightarrow> lr_closed (reader_after evs))
   \<and> (lr_closed (reader_after evs) \<longrightarrow> lr_resolvers (reader_after evs) = [])"
proof -
  note d = delivery_invD[OF reader_delivery[of evs]]
  have c1: "\<forall>k l. (k, Some l) \<in> set (settled_by evs) \<longrightarrow>
       l = arrived evs ! length (returned_lines (filter (\<lambda>a. fst a < k) (handed_by evs)))"
    using rank_line(1)[OF d(1) reader_lines] settled_handed[of evs] by blast
  have c2: "\<forall>k l. (k, Some l) \<in> set (settled_by evs) \<and> (\<forall>j<k. (j, None) \<notin> set (handed_by evs)) \<longrightarrow>
       l = arrived evs ! k"
    using rank_line(2)[OF d(1) reader_lines] settled_handed[of evs] by blast
  have c6: "distinct (map fst (settled_by evs))" using d(3) by simp
  have c7: "lr_jobs (reader_after evs) = [] \<longrightarrow> set (settled_by evs) = set (handed_by evs)"
  proof
    assume e: "lr_jobs (reader_after evs) = []"
    with d(4) have "lr_fulfilled (reader_after evs) = []" by (cases "lr_fulfilled (reader_after evs)") auto
    with d(2) e show "set (settled_by evs) = set (handed_by evs)" by simp
  qed
  have c8: "lr_jobs (reader_after (evs @ replicate (2 * length (lr_jobs (reader_after evs))) Microtask)) = []"
    unfolding reader_after_append by (rule microtasks_drain[OF weight_le])
  have c9: "handed_by (evs @ replicate n Microtask) = handed_by evs"
    by (simp add: handed_by_append microtasks_handed)
  have c10: "\<forall>m < length evs. \<forall>k.
        (k, None) \<in> set (handed (snd (lr_step (evs ! m) (reader_after (take m evs))))) \<longrightarrow>
        lr_closed (fst (lr_step (evs ! m) (reader_after (take m evs)))) \<and>
        lr_lines (fst (lr_step (evs ! m) (reader_after (take m evs)))) = []"
    using lr_step_null[OF reader_waiting] by blast
  have c11: "\<forall>k. (k, None) \<in> set (settled_by evs) \<longrightarrow> lr_closed (reader_after evs)"
  proof (intro allI impI)
    fix k assume "(k, None) \<in> set (settled_by evs)"
    with settled_handed[of evs] have "(k, None) \<in> set (handed_by evs)" by blast
    then show "lr_closed (reader_after evs)"
      using run_reader_null_closed[OF waiting_inv_init, of k evs]
      by (simp add: handed_by_def reader_after_def)
  qed
  have c12: "lr_closed (reader_after evs) \<longrightarrow> lr_resolvers (reader_after evs) = []"
    using reader_waiting[of evs] by (auto simp: waiting_inv_def)
  from c1 c2 d(1) reader_lines[of evs] settled_handed[of evs] c6 c7 c8 c9 c10 c11 c12
  show ?thesis by (intro conjI)
qed

text \<open>
  In the run \<open>overtaking_run\<close> the calls return in the order 1, 0, 2, 3, with the lines
  \<open>b\<close>, \<open>a\<close>, \<open>c\<close> and \<open>null\<close>: each call returns the line of its number.
\<close>

theorem readLine_fifo_witness:
  "settled_by overtaking_run = [(1, Some ''b''), (0, Some ''a''), (2, Some ''c''), (3, None)]
   \<and> handed_by overtaking_run = [(0, Some ''a''), (1, Some ''b''), (2, Some ''c''), (3, None)]
   \<and> arrived overtaking_run = [''a'', ''b'', ''c'']
   \<and> (1, Some ''b'') \<in> set (settled_by overtaking_run)
   \<and> (0, None) \<notin> set (handed_by overtaking_run)
   \<and> ''b'' = arrived overtaking_run ! 1
   \<and> lr_jobs (reader_after overtaking_run) = []
   \<and> set (settled_by overtaking_run) = set (handed_by overtaking_run)
   \<and> (9::nat) < length overtaking_run
   \<and> (3, None) \<in> set (handed (snd (lr_step (overtaking_run ! 9)
                                      (reader_after (take 9 overtaking_run)))))
   \<and> lr_closed (fst (lr_step (overtaking_run ! 9) (reader_after (take 9 overtaking_run))))
   \<and> lr_lines (fst (lr_step (overtaking_run ! 9) (reader_after (take 9 overtaking_run)))) = []
   \<and> (3, None) \<in> set (settled_by overtaking_run)
   \<and> lr_closed (reader_after overtaking_run)"
proof -
  have s: "settled_by overtaking_run =
      [(1, Some ''b''), (0, Some ''a''), (2, Some ''c''), (3, None)]"
    by (simp add: settled_by_def overtaking_run_result)
  have h: "handed_by overtaking_run =
      [(0, Some ''a''), (1, Some ''b''), (2, Some ''c''), (3, None)]"
    by (simp add: handed_by_def overtaking_run_result)
  have a: "arrived overtaking_run = [''a'', ''b'', ''c'']"
    by (simp add: overtaking_run_def)
  have m: "(1, Some ''b'') \<in> set (settled_by overtaking_run)" by (simp add: s)
  have n0: "(0, None) \<notin> set (handed_by overtaking_run)" by (simp add: h)
  then have n: "\<forall>j<1. (j, None) \<notin> set (handed_by overtaking_run)" by simp
  have j: "lr_jobs (reader_after overtaking_run) = []"
    by (simp add: reader_after_def overtaking_run_result)
  have len: "(9::nat) < length overtaking_run" by (simp add: overtaking_run_def)
  have c: "(3, None) \<in> set (handed (snd (lr_step (overtaking_run ! 9)
                                      (reader_after (take 9 overtaking_run)))))"
    by (simp only: overtaking_run_close) simp
  have z: "(3, None) \<in> set (settled_by overtaking_run)" by (simp add: s)
  note t = readLine_fifo[of overtaking_run 0]
  from t m n have r1: "''b'' = arrived overtaking_run ! 1" by blast
  from t j have r2: "set (settled_by overtaking_run) = set (handed_by overtaking_run)" by blast
  from t len c have r3:
    "lr_closed (fst (lr_step (overtaking_run ! 9) (reader_after (take 9 overtaking_run)))) \<and>
     lr_lines (fst (lr_step (overtaking_run ! 9) (reader_after (take 9 overtaking_run)))) = []"
    by blast
  from t z have r4: "lr_closed (reader_after overtaking_run)" by blast
  from r3 have r3a:
    "lr_closed (fst (lr_step (overtaking_run ! 9) (reader_after (take 9 overtaking_run))))"
    and r3b:
    "lr_lines (fst (lr_step (overtaking_run ! 9) (reader_after (take 9 overtaking_run)))) = []"
    by (rule conjunct1, rule conjunct2)
  show ?thesis by (intro conjI s h a m n0 r1 j r2 len c r3a r3b z r4)
qed

section \<open>Properties of the agent process\<close>

subsection \<open>Effects of the procedures\<close>

lemma frames_append: "frames (xs @ ys) = frames xs @ frames ys"
  by (induction xs rule: frames.induct) simp_all

lemma posts_append: "posts (xs @ ys) = posts xs @ posts ys"
  by (induction xs rule: posts.induct) simp_all


lemma stopped_append: "stopped_frames (xs @ ys) = stopped_frames xs @ stopped_frames ys"
  by (simp add: stopped_frames_def frames_append)

lemma complete_append: "complete_frames (xs @ ys) = complete_frames xs @ complete_frames ys"
  by (simp add: complete_frames_def frames_append)

lemma frames_emit: "frames (emit m tr) = frames tr @ [m]"
  by (simp add: emit_def frames_append)

lemma frames_notify: "frames (callCallback env st sid err (flushVolume env tr)) = frames tr"
  by (simp add: callCallback_def flushVolume_def frames_append)

lemma posts_emit: "posts (emit m tr) = posts tr"
  by (simp add: emit_def posts_append)

lemma posts_notify:
  "posts (callCallback env st sid err (flushVolume env tr)) =
     posts tr @ (if truthy (CALLBACK_URL env)
                 then [\<lparr>cb_status = st, cb_sessionId = sid, cb_errorMessage = err\<rparr>] else [])"
  by (simp add: callCallback_def flushVolume_def posts_append)



lemma frame_types:
  "m_type (process_error e) = ''process_error''"
  "m_type (process_ready s) = ''process_ready''"
  "m_type (session_started sid) = ''session_started''"
  "m_type (session_complete sid r) = ''session_complete''"
  "m_type process_stopped = ''process_stopped''"
  by (simp_all add: process_error_def process_ready_def session_started_def
      session_complete_def process_stopped_def)

lemma stopped_emit:
  "stopped_frames (emit m tr) =
     stopped_frames tr @ (if m_type m = ''process_stopped'' then [m] else [])"
  by (simp add: stopped_frames_def frames_emit)

lemma stopped_notify:
  "stopped_frames (callCallback env st sid err (flushVolume env tr)) = stopped_frames tr"
  by (simp add: stopped_frames_def frames_notify)

lemma complete_emit:
  "complete_frames (emit m tr) =
     complete_frames tr @ (if m_type m = ''session_complete'' then [m] else [])"
  by (simp add: complete_frames_def frames_emit)

lemma complete_notify:
  "complete_frames (callCallback env st sid err (flushVolume env tr)) = complete_frames tr"
  by (simp add: complete_frames_def frames_notify)

lemma no_frames:
  "stopped_frames [] = []" "complete_frames [] = []"
  "stopped_frames [RlClose] = []" "complete_frames [RlClose] = []"
  by (simp_all add: stopped_frames_def complete_frames_def)

subsection \<open>One iteration of the loop, and the loop\<close>


lemma loop_body_stopped:
  "stopped_frames (snd (snd (loop_body env m st))) = stopped_frames (snd (snd st))"
  by (cases st) (simp add: stopped_emit stopped_notify frame_types)

lemma loop_body_no_result:
  "\<not> is_result m \<Longrightarrow>
   loop_body env m (sid, got, tr) =
     (if is_init m then q_session_id m else sid, got,
      if is_init m then emit (session_started (q_session_id m)) tr else tr)"
  by simp




lemma consume_stopped:
  "stopped_frames (snd (snd (consume env ms st))) = stopped_frames (snd (snd st))"
  by (induction ms arbitrary: st) (simp_all add: loop_body_stopped)

lemma consume_no_result:
  "\<forall>m \<in> set ms. \<not> is_result m \<Longrightarrow>
   consume env ms (sid, got, tr) = (sid', got', tr') \<Longrightarrow>
   sid' = final_session_id sid ms \<and> got' = got \<and>
   complete_frames tr' = complete_frames tr \<and> posts tr' = posts tr"
proof (induction ms arbitrary: sid got tr)
  case Nil
  then show ?case by (simp add: final_session_id_def)
next
  case (Cons m ms)
  from Cons.prems have nr: "\<not> is_result m" and rest: "\<forall>m \<in> set ms. \<not> is_result m"
    by simp_all
  from Cons.prems(2) have
    "consume env ms (if is_init m then q_session_id m else sid, got,
       if is_init m then emit (session_started (q_session_id m)) tr else tr) = (sid', got', tr')"
    by (simp only: consume.simps loop_body_no_result[OF nr])
  from Cons.IH[OF rest this] show ?case
    by (simp add: final_session_id_def complete_emit posts_emit frame_types)
qed



subsection \<open>The try block\<close>

lemma run_query_cases:
  obtains ms e sid got tr1 where "query prompt resume = (ms, e)"
    and "consume env ms (resume, False, tr) = (sid, got, tr1)"
proof -
  obtain ms e where q: "query prompt resume = (ms, e)" by (cases "query prompt resume")
  obtain sid got tr1 where "consume env ms (resume, False, tr) = (sid, got, tr1)"
    by (cases "consume env ms (resume, False, tr)")
  with q that show ?thesis by blast
qed

lemma run_query_stopped:
  "stopped_frames (outcome_effects (run_query env query prompt resume tr)) = stopped_frames tr"
proof -
  obtain ms e sid got tr1 where q: "query prompt resume = (ms, e)"
    and c: "consume env ms (resume, False, tr) = (sid, got, tr1)" by (rule run_query_cases)
  have "stopped_frames tr1 = stopped_frames tr"
    using consume_stopped[of env ms "(resume, False, tr)"] c by simp
  then show ?thesis
    by (cases e) (simp_all add: run_query_def q c stopped_notify stopped_emit frame_types)
qed


lemma run_query_blocked:
  "is_blocked (run_query env query prompt resume tr) \<Longrightarrow> snd (query prompt resume) = Hangs"
  by (auto simp: run_query_def split: prod.splits ending.splits if_splits)


lemma await_message_stopped:
  "stopped_frames (outcome_effects (await_message env parse query second resume tr)) =
     stopped_frames tr"
  by (simp add: await_message_def run_query_stopped stopped_emit frame_types
      split: read_outcome.splits parsed.splits)


lemma await_message_blocked:
  "is_blocked (await_message env parse query second resume tr) \<Longrightarrow>
     second = NeverSettles \<or> (\<exists>p r. snd (query p r) = Hangs)"
  by (auto simp: await_message_def dest: run_query_blocked
      split: read_outcome.splits parsed.splits if_splits)


lemma main_try_stopped:
  "stopped_frames (outcome_effects (main_try env parse query first second)) = []"
  by (simp add: main_try_def await_message_stopped stopped_emit frame_types no_frames
      split: read_outcome.splits parsed.splits)


lemma main_try_blocked:
  "is_blocked (main_try env parse query first second) \<Longrightarrow>
     first = NeverSettles \<or> second = NeverSettles \<or> (\<exists>p r. snd (query p r) = Hangs)"
  by (auto simp: main_try_def dest: await_message_blocked
      split: read_outcome.splits parsed.splits if_splits)


lemma main_try_handshake:
  "handshake parse first second startMsg sessionMsg \<Longrightarrow>
   main_try env parse query first second =
     run_query env query (parseContent sessionMsg) (sessionIdToResume env startMsg)
       (emit (process_ready
                (case sessionIdToResume env startMsg of Some sid \<Rightarrow> sid | None \<Rightarrow> ''pending''))
          [])"
  by (auto simp: handshake_def main_try_def await_message_def truthy_def
      split: read_outcome.splits option.splits)

subsection \<open>The whole of main\<close>

lemma main_finished:
  "finished (main env parse query first second) =
     (\<not> is_blocked (main_try env parse query first second))"
  by (cases "main_try env parse query first second") (simp_all add: main_def finally_block_def)

lemma main_stopped_frames:
  "stopped_frames (effects (main env parse query first second)) =
     (if finished (main env parse query first second) then [process_stopped] else [])"
  using main_try_stopped[of env parse query first second]
  by (cases "main_try env parse query first second")
     (simp_all add: main_def finally_block_def stopped_emit stopped_notify stopped_append
        no_frames frame_types)

lemma main_last_frame:
  "finished (main env parse query first second) \<Longrightarrow>
     frames (effects (main env parse query first second)) \<noteq> [] \<and>
     last (frames (effects (main env parse query first second))) = process_stopped"
  by (cases "main_try env parse query first second")
     (simp_all add: main_def finally_block_def frames_emit)





lemma demo_handshake:
  "handshake demo_parse (Settles (Some ''start'')) (Settles (Some ''hello''))
     demo_start demo_message"
  by (simp add: handshake_def demo_parse_def demo_start_def demo_message_def parseContent_def
      truthy_def)

lemma demo_resume: "sessionIdToResume demo_env demo_start = None"
  by (simp add: sessionIdToResume_def demo_env_def demo_start_def truthy_def)

text \<open>
  Claim C2. Suppose \<open>main\<close> reaches \<open>query()\<close> (both frames accepted, prompt not empty),
  and the sequence of \<open>query()\<close> ends without having yielded a message that the loop
  takes for a result. Then \<open>main\<close> comes to its end; among the frames it emitted exactly
  one has the type \<open>session_complete\<close>, and it carries the current session id and a
  result whose \<open>duration_ms\<close>, \<open>duration_api_ms\<close>, \<open>total_cost_usd\<close> and \<open>num_turns\<close>
  are all the number 0; and
  \<open>callCallback\<close> is called once, with status \<open>completed\<close> and that session id, which
  sends one POST when \<open>CALLBACK_URL\<close> is set.
\<close>

theorem degenerate_completion:
  assumes hs: "handshake parse first second startMsg sessionMsg"
    and q: "query (parseContent sessionMsg) (sessionIdToResume env startMsg) = (messages, Ends)"
    and nores: "\<forall>m \<in> set messages. \<not> is_result m"
  shows "finished (main env parse query first second)
    \<and> complete_frames (effects (main env parse query first second)) =
        [\<lparr>m_type = ''session_complete'',
          m_session_id = final_session_id (sessionIdToResume env startMsg) messages,
          m_message = None,
          m_result = Some \<lparr>duration_ms = Some 0, duration_api_ms = Some 0,
                           total_cost_usd = Some 0, num_turns = Some 0\<rparr>\<rparr>]
    \<and> posts (effects (main env parse query first second)) =
        (if truthy (CALLBACK_URL env)
         then [\<lparr>cb_status = ''completed'',
                cb_sessionId = final_session_id (sessionIdToResume env startMsg) messages,
                cb_errorMessage = None\<rparr>]
         else [])"
proof -
  let ?tr0 = "emit (process_ready
                (case sessionIdToResume env startMsg of Some sid \<Rightarrow> sid | None \<Rightarrow> ''pending''))
                []"
  obtain sid got tr where
    c: "consume env messages (sessionIdToResume env startMsg, False, ?tr0) = (sid, got, tr)"
    by (cases "consume env messages (sessionIdToResume env startMsg, False, ?tr0)")
  from consume_no_result[OF nores c]
  have sid: "sid = final_session_id (sessionIdToResume env startMsg) messages"
    and got: "\<not> got"
    and cf: "complete_frames tr = complete_frames ?tr0"
    and ps: "posts tr = posts ?tr0" by simp_all
  have cf0: "complete_frames ?tr0 = []" by (simp add: complete_emit no_frames frame_types)
  have ps0: "posts ?tr0 = []" by (simp add: posts_emit)
  have m: "main env parse query first second =
      finally_block (callCallback env ''completed'' sid None
                       (flushVolume env (emit (session_complete sid zero_metrics) tr)))"
    by (simp add: main_def main_try_handshake[OF hs] run_query_def q c got)
  show ?thesis
    unfolding m finally_block_def
    using cf cf0 ps ps0 sid
    by (simp add: complete_emit complete_notify posts_emit posts_notify
        frame_types complete_append no_frames posts_append)
       (simp add: session_complete_def zero_metrics_def)
qed

theorem degenerate_completion_witness:
  "handshake demo_parse (Settles (Some ''start'')) (Settles (Some ''hello''))
     demo_start demo_message
   \<and> demo_query (parseContent demo_message) (sessionIdToResume demo_env demo_start) =
       ([demo_init], Ends)
   \<and> \<not> is_result demo_init
   \<and> finished (main demo_env demo_parse demo_query
        (Settles (Some ''start'')) (Settles (Some ''hello'')))
   \<and> complete_frames (effects (main demo_env demo_parse demo_query
        (Settles (Some ''start'')) (Settles (Some ''hello'')))) =
       [\<lparr>m_type = ''session_complete'', m_session_id = Some ''abc'', m_message = None,
         m_result = Some \<lparr>duration_ms = Some 0, duration_api_ms = Some 0,
                          total_cost_usd = Some 0, num_turns = Some 0\<rparr>\<rparr>]
   \<and> posts (effects (main demo_env demo_parse demo_query
        (Settles (Some ''start'')) (Settles (Some ''hello'')))) =
       [\<lparr>cb_status = ''completed'', cb_sessionId = Some ''abc'', cb_errorMessage = None\<rparr>]"
proof -
  have q: "demo_query (parseContent demo_message) (sessionIdToResume demo_env demo_start) =
       ([demo_init], Ends)" by (simp add: demo_query_def)
  have nr: "\<not> is_result demo_init" by (simp add: is_result_def demo_init_def)
  then have nores: "\<forall>m \<in> set [demo_init]. \<not> is_result m" by simp
  have sid: "final_session_id (sessionIdToResume demo_env demo_start) [demo_init] = Some ''abc''"
    by (simp add: final_session_id_def is_init_def demo_init_def)
  have url: "truthy (CALLBACK_URL demo_env)" by (simp add: demo_env_def truthy_def)
  from degenerate_completion[where query=demo_query and env=demo_env, OF demo_handshake q nores]
    demo_handshake q nr sid url
  show ?thesis by simp
qed



text \<open>
  Claim C8. Every run of \<open>main\<close> that comes to its end, whichever way the \<open>try\<close> block
  was left (by one of its \<open>return\<close>s after a protocol error, a missing or malformed
  session message or an empty prompt, by an exception, or by reaching its end), has
  emitted a \<open>process_stopped\<close> frame, exactly one, and as its last frame. \<open>main\<close> comes to
  its end whenever its two reads settle and the sequence of \<open>query()\<close> does not hang. A
  run that waits forever has emitted no \<open>process_stopped\<close>.
\<close>

theorem process_stopped_last:
  "(finished (main env parse query first second) \<longrightarrow>
      frames (effects (main env parse query first second)) \<noteq> [] \<and>
      last (frames (effects (main env parse query first second))) = process_stopped \<and>
      stopped_frames (effects (main env parse query first second)) = [process_stopped])
   \<and> (first \<noteq> NeverSettles \<and> second \<noteq> NeverSettles \<and> (\<forall>p r. snd (query p r) \<noteq> Hangs) \<longrightarrow>
      finished (main env parse query first second))
   \<and> (\<not> finished (main env parse query first second) \<longrightarrow>
      stopped_frames (effects (main env parse query first second)) = [])"
  using main_last_frame[of env parse query first second]
    main_stopped_frames[of env parse query first second]
    main_try_blocked[of env parse query first second]
  by (auto simp: main_finished)

text \<open>
  Two runs: the concrete one, and one in which the first line is not JSON (the second
  read is never made).
\<close>

theorem process_stopped_last_witness:
  "Settles (Some ''start'') \<noteq> NeverSettles
   \<and> Settles (Some ''hello'') \<noteq> NeverSettles
   \<and> (\<forall>p r. snd (demo_query p r) \<noteq> Hangs)
   \<and> finished (main demo_env demo_parse demo_query
        (Settles (Some ''start'')) (Settles (Some ''hello'')))
   \<and> last (frames (effects (main demo_env demo_parse demo_query
        (Settles (Some ''start'')) (Settles (Some ''hello''))))) = process_stopped
   \<and> stopped_frames (effects (main demo_env demo_parse demo_query
        (Settles (Some ''start'')) (Settles (Some ''hello'')))) = [process_stopped]
   \<and> frames (effects (main demo_env demo_parse demo_query
        (Settles (Some ''garbage'')) NeverSettles)) =
       [process_error ''Invalid JSON for process_start'', process_stopped]"
proof -
  have h: "\<forall>p r. snd (demo_query p r) \<noteq> Hangs" by (simp add: demo_query_def)
  have g: "frames (effects (main demo_env demo_parse demo_query
        (Settles (Some ''garbage'')) NeverSettles)) =
       [process_error ''Invalid JSON for process_start'', process_stopped]"
    by (simp add: main_def main_try_def demo_parse_def truthy_def finally_block_def emit_def)
  from process_stopped_last
         [of demo_env demo_parse demo_query "Settles (Some ''start'')"
             "Settles (Some ''hello'')"] h
  have "finished (main demo_env demo_parse demo_query
        (Settles (Some ''start'')) (Settles (Some ''hello'')))
   \<and> last (frames (effects (main demo_env demo_parse demo_query
        (Settles (Some ''start'')) (Settles (Some ''hello''))))) = process_stopped
   \<and> stopped_frames (effects (main demo_env demo_parse demo_query
        (Settles (Some ''start'')) (Settles (Some ''hello'')))) = [process_stopped]"
    by simp
  with h g show ?thesis by simp
qed

section \<open>Properties of the polling client\<close>

lemma rerender_fields:
  "conversationId (rerender old new) = conversationId new"
  "status (rerender old new) = status new"
  "serverMessages (rerender old new) = serverMessages new"
  "pendingMessages (rerender old new) = pendingMessages new"
  "errorMessage (rerender old new) = errorMessage new"
  "refreshTrigger (rerender old new) = refreshTrigger new"
  "postCompletionPollsRef (rerender old new) = postCompletionPollsRef new"
  "isPollingRef (rerender old new) = isPollingRef new"
  "prevPollDataRef (rerender old new) = prevPollDataRef new"
  "requests (rerender old new) = requests new"
  "responses (rerender old new) = responses new"
  by (simp_all add: rerender_def Let_def)

lemma apply_poll_fields:
  "isPollingRef (apply_poll data s) = isPollingRef s"
  "requests (apply_poll data s) = requests s"
  "responses (apply_poll data s) = responses s"
  by (simp_all add: apply_poll_def)

lemma run_home_append: "run_home (es @ es') s = run_home es' (run_home es s)"
  by (induction es arbitrary: s) simp_all

subsection \<open>The busy flag\<close>

lemma busy_inv_init: "busy_inv home_init"
  by (simp add: busy_inv_def home_init_def)

lemma busy_inv_step:
  assumes inv: "busy_inv s"
  shows "busy_inv (home_step e s)"
proof (cases e)
  case Tick
  with inv show ?thesis by (auto simp: busy_inv_def tick_def)
next
  case (Settle r)
  with inv show ?thesis
    by (cases r) (auto simp: busy_inv_def settle_def rerender_fields apply_poll_fields)
next
  case RefreshTimeout
  with inv show ?thesis by (auto simp: busy_inv_def refresh_timeout_def)
next
  case (SubmitBegin c n t)
  with inv show ?thesis by (simp add: busy_inv_def submit_begin_def rerender_fields)
next
  case (SubmitOk cid)
  with inv show ?thesis by (simp add: busy_inv_def submit_ok_def rerender_fields)
next
  case (SubmitFailed pid msg)
  with inv show ?thesis by (simp add: busy_inv_def submit_failed_def rerender_fields)
qed

lemma busy_inv_run: "busy_inv s \<Longrightarrow> busy_inv (run_home evs s)"
  by (induction evs arbitrary: s) (simp_all add: busy_inv_step)

lemma settle_clears:
  "responses s < requests s \<Longrightarrow>
     isPollingRef (settle r s) = False \<and> responses (settle r s) = Suc (responses s) \<and>
     requests (settle r s) = requests s"
  by (cases r) (simp_all add: settle_def rerender_fields apply_poll_fields)

text \<open>
  Claim C4. After any sequence of timer ticks, settled fetches, refresh timeouts and
  submissions, from the initial component:
  \<^item> the polling fetches issued and not yet settled are none or one, and the busy flag is
    set exactly when there is one;
  \<^item> a tick that fires while a fetch is outstanding changes nothing: it issues no fetch
    and leaves nothing behind to be run later;
  \<^item> when the outstanding fetch settles, in any of the three ways (ok, not ok, thrown),
    the flag is cleared and no fetch is outstanding;
  \<^item> so the next tick, if the interval is still installed, issues a fetch.
\<close>

theorem single_poll_in_flight:
  "responses (run_home evs home_init) \<le> requests (run_home evs home_init)
   \<and> requests (run_home evs home_init) \<le> Suc (responses (run_home evs home_init))
   \<and> isPollingRef (run_home evs home_init) =
       (responses (run_home evs home_init) < requests (run_home evs home_init))
   \<and> (responses (run_home evs home_init) < requests (run_home evs home_init) \<longrightarrow>
        home_step Tick (run_home evs home_init) = run_home evs home_init)
   \<and> (responses (run_home evs home_init) < requests (run_home evs home_init) \<longrightarrow>
        \<not> isPollingRef (home_step (Settle r) (run_home evs home_init)) \<and>
        responses (home_step (Settle r) (run_home evs home_init)) =
          requests (home_step (Settle r) (run_home evs home_init)))
   \<and> (responses (run_home evs home_init) < requests (run_home evs home_init) \<and>
        pollInterval (home_step (Settle r) (run_home evs home_init)) \<longrightarrow>
        requests (home_step Tick (home_step (Settle r) (run_home evs home_init))) =
          Suc (requests (run_home evs home_init)))"
proof -
  let ?s = "run_home evs home_init"
  have inv: "busy_inv ?s" by (rule busy_inv_run[OF busy_inv_init])
  then have a0: "responses ?s \<le> requests ?s"
    and a: "requests ?s \<le> Suc (responses ?s)"
    and b: "isPollingRef ?s = (responses ?s < requests ?s)"
    by (simp_all add: busy_inv_def)
  have c: "responses ?s < requests ?s \<longrightarrow> home_step Tick ?s = ?s"
    using b by (simp add: tick_def)
  have d: "responses ?s < requests ?s \<longrightarrow>
        \<not> isPollingRef (home_step (Settle r) ?s) \<and>
        responses (home_step (Settle r) ?s) = requests (home_step (Settle r) ?s)"
    using settle_clears[of ?s r] a by auto
  have e: "responses ?s < requests ?s \<and> pollInterval (home_step (Settle r) ?s) \<longrightarrow>
        requests (home_step Tick (home_step (Settle r) ?s)) = Suc (requests ?s)"
    using settle_clears[of ?s r] by (auto simp: tick_def)
  from a0 a b c d e show ?thesis by blast
qed

text \<open>The state after the submission and the first tick: one fetch is outstanding.\<close>

lemma first_tick_state:
  "run_home [SubmitBegin ''hi'' ''1'' ''t'', SubmitOk (Some ''c1''), Tick] home_init =
   \<lparr>conversationId = Some ''c1'', status = ''running'', serverMessages = [],
    pendingMessages = [\<lparr>p_id = ''pending-1'', p_content = ''hi'', p_timestamp = ''t''\<rparr>],
    errorMessage = None, isSubmitting = False, refreshTrigger = 0,
    postCompletionPollsRef = 0, isPollingRef = True, prevPollDataRef = ([], 0),
    pollInterval = True, refreshTimers = 0, requests = 1, responses = 0\<rparr>"
  by (simp add: home_init_def submit_begin_def submit_ok_def tick_def rerender_def Let_def
      polling_effect_def refresh_effect_def isDone_def truthy_def)

theorem single_poll_in_flight_witness:
  "responses (run_home [SubmitBegin ''hi'' ''1'' ''t'', SubmitOk (Some ''c1''), Tick] home_init)
     < requests (run_home [SubmitBegin ''hi'' ''1'' ''t'', SubmitOk (Some ''c1''), Tick] home_init)
   \<and> requests (home_step Tick
        (run_home [SubmitBegin ''hi'' ''1'' ''t'', SubmitOk (Some ''c1''), Tick] home_init)) = 1
   \<and> pollInterval (home_step (Settle FetchFailed)
        (run_home [SubmitBegin ''hi'' ''1'' ''t'', SubmitOk (Some ''c1''), Tick] home_init))
   \<and> \<not> isPollingRef (home_step (Settle FetchFailed)
        (run_home [SubmitBegin ''hi'' ''1'' ''t'', SubmitOk (Some ''c1''), Tick] home_init))
   \<and> requests (home_step Tick (home_step (Settle FetchFailed)
        (run_home [SubmitBegin ''hi'' ''1'' ''t'', SubmitOk (Some ''c1''), Tick] home_init))) = 2"
proof -
  let ?s = "run_home [SubmitBegin ''hi'' ''1'' ''t'', SubmitOk (Some ''c1''), Tick] home_init"
  have busy: "responses ?s < requests ?s" by (simp only: first_tick_state) simp
  have r: "requests ?s = 1" by (simp only: first_tick_state) simp
  have p: "pollInterval (home_step (Settle FetchFailed) ?s)"
    by (simp only: first_tick_state) (simp add: settle_def rerender_def Let_def)
  from single_poll_in_flight[of "[SubmitBegin ''hi'' ''1'' ''t'', SubmitOk (Some ''c1''), Tick]"
      FetchFailed] busy p r
  have "home_step Tick ?s = ?s
    \<and> \<not> isPollingRef (home_step (Settle FetchFailed) ?s)
    \<and> requests (home_step Tick (home_step (Settle FetchFailed) ?s)) = 2"
    by simp
  with busy p r show ?thesis by simp
qed

subsection \<open>Retiring pending messages\<close>

text \<open>
  Claim C5. When a poll's fetch settles with an ok response, the pending messages after
  it are the pending messages before it, in the same order, without those for which the
  fetched sequence has an entry of type \<open>user\<close> whose extracted text is the pending
  message's text. So a pending message stays iff the fetched sequence has no such entry,
  and none is removed by a poll without a match; a fetch that fails removes none.
  (The entry's \<open>type\<close> is what the specification calls the role.)
\<close>

theorem pending_retired_iff_matched:
  "responses s < requests s \<longrightarrow>
     pendingMessages (settle (Fetched data) s) =
       filter (\<lambda>p. \<not> (\<exists>m \<in> set (r_messages data).
                        e_type m = ''user'' \<and> getUserMessageText (e_content m) = p_content p))
         (pendingMessages s)
     \<and> (p \<in> set (pendingMessages (settle (Fetched data) s)) \<longleftrightarrow>
          p \<in> set (pendingMessages s) \<and>
          \<not> (\<exists>m \<in> set (r_messages data).
                e_type m = ''user'' \<and> getUserMessageText (e_content m) = p_content p))
     \<and> pendingMessages (settle HttpError s) = pendingMessages s
     \<and> pendingMessages (settle FetchFailed s) = pendingMessages s"
  by (auto simp: settle_def rerender_fields apply_poll_def hasPendingMatch_def list_ex_iff)

text \<open>
  The poll of the specification's scenario: the pending message \<open>Build me a site\<close> and a
  fetched user entry with that text, next to a pending message that has no match.
\<close>

theorem pending_retired_iff_matched_witness:
  "responses (home_init\<lparr>requests := 1, pendingMessages :=
       [\<lparr>p_id = ''pending-1'', p_content = ''Build me a site'', p_timestamp = ''t''\<rparr>,
        \<lparr>p_id = ''pending-2'', p_content = ''And a logo'', p_timestamp = ''u''\<rparr>]\<rparr>)
     < requests (home_init\<lparr>requests := 1, pendingMessages :=
       [\<lparr>p_id = ''pending-1'', p_content = ''Build me a site'', p_timestamp = ''t''\<rparr>,
        \<lparr>p_id = ''pending-2'', p_content = ''And a logo'', p_timestamp = ''u''\<rparr>]\<rparr>)
   \<and> pendingMessages
       (settle (Fetched \<lparr>r_status = ''running'',
                         r_messages = [\<lparr>e_type = ''user'',
                                        e_content = Arr [text_segment ''Build me a site'']\<rparr>],
                         r_errorMessage = None\<rparr>)
          (home_init\<lparr>requests := 1, pendingMessages :=
             [\<lparr>p_id = ''pending-1'', p_content = ''Build me a site'', p_timestamp = ''t''\<rparr>,
              \<lparr>p_id = ''pending-2'', p_content = ''And a logo'', p_timestamp = ''u''\<rparr>]\<rparr>))
     = [\<lparr>p_id = ''pending-2'', p_content = ''And a logo'', p_timestamp = ''u''\<rparr>]"
proof -
  let ?s = "home_init\<lparr>requests := 1, pendingMessages :=
       [\<lparr>p_id = ''pending-1'', p_content = ''Build me a site'', p_timestamp = ''t''\<rparr>,
        \<lparr>p_id = ''pending-2'', p_content = ''And a logo'', p_timestamp = ''u''\<rparr>]\<rparr>"
  let ?d = "\<lparr>r_status = ''running'',
             r_messages = [\<lparr>e_type = ''user'',
                            e_content = Arr [text_segment ''Build me a site'']\<rparr>],
             r_errorMessage = None\<rparr>"
  have busy: "responses ?s < requests ?s" by (simp add: home_init_def)
  from pending_retired_iff_matched[of ?s ?d] busy
  have "pendingMessages (settle (Fetched ?d) ?s) =
       filter (\<lambda>p. \<not> (\<exists>m \<in> set (r_messages ?d).
                        e_type m = ''user'' \<and> getUserMessageText (e_content m) = p_content p))
         (pendingMessages ?s)"
    by blast
  then have "pendingMessages (settle (Fetched ?d) ?s) =
      [\<lparr>p_id = ''pending-2'', p_content = ''And a logo'', p_timestamp = ''u''\<rparr>]"
    by (simp add: text_segment_def truthy_def)
  with busy show ?thesis by simp
qed

subsection \<open>The refresh signal\<close>

lemma quiet_step:
  assumes q: "quiet_event (prevPollDataRef s) e"
  shows "refreshTrigger (home_step e s) = refreshTrigger s \<and>
         prevPollDataRef (home_step e s) = prevPollDataRef s"
proof (cases e)
  case (Settle r)
  with q show ?thesis
    by (cases r; cases "prevPollDataRef s")
       (auto simp: settle_def rerender_fields apply_poll_def)
next
  case RefreshTimeout
  with q show ?thesis by simp
qed (simp_all add: tick_def submit_begin_def submit_ok_def submit_failed_def rerender_fields)

lemma quiet_run:
  "\<forall>e \<in> set evs. quiet_event (prevPollDataRef s) e \<Longrightarrow>
   refreshTrigger (run_home evs s) = refreshTrigger s \<and>
   prevPollDataRef (run_home evs s) = prevPollDataRef s"
proof (induction evs arbitrary: s)
  case Nil
  then show ?case by simp
next
  case (Cons e evs)
  from Cons.prems have q: "quiet_event (prevPollDataRef s) e" by simp
  from quiet_step[OF q] Cons.prems
  have "\<forall>e' \<in> set evs. quiet_event (prevPollDataRef (home_step e s)) e'" by simp
  from Cons.IH[OF this] quiet_step[OF q] show ?case by simp
qed

text \<open>The state of the concrete conversation after its first poll.\<close>

lemma drain_prefix_state:
  "run_home drain_prefix home_init =
   \<lparr>conversationId = Some ''c1'', status = ''completed'',
    serverMessages = [\<lparr>e_type = ''assistant'', e_content = Str ''done''\<rparr>],
    pendingMessages = [\<lparr>p_id = ''pending-1'', p_content = ''hi'', p_timestamp = ''t''\<rparr>],
    errorMessage = None, isSubmitting = False, refreshTrigger = 1,
    postCompletionPollsRef = 1, isPollingRef = False,
    prevPollDataRef = (''completed'', 1), pollInterval = True,
    refreshTimers = 2, requests = 1, responses = 1\<rparr>"
  by (simp add: drain_prefix_def home_init_def submit_begin_def submit_ok_def tick_def
      settle_def rerender_def apply_poll_def reply_completed_def hasPendingMatch_def
      isDone_def Let_def polling_effect_def refresh_effect_def truthy_def)

text \<open>
  Claim C6, as the code has it. When a poll's fetch settles with an ok response, the
  poll handler fires the refresh signal iff the fetched pair (status, number of
  messages) differs from the snapshot, and then sets the snapshot to the fetched pair,
  fired or not. Over any sequence of events in which every ok poll fetches the pair of
  the snapshot and no timeout of the refresh effect fires, the signal does not fire and
  the snapshot stays. The signal has one other source: each of the two timeouts that the
  refresh effect arms when the status becomes completed or error fires it once,
  whatever the polls fetch.
\<close>

theorem refresh_signal_gating:
  "(responses s < requests s \<longrightarrow>
      refreshTrigger (settle (Fetched data) s) =
        (if (r_status data, length (r_messages data)) \<noteq> prevPollDataRef s
         then Suc (refreshTrigger s) else refreshTrigger s) \<and>
      prevPollDataRef (settle (Fetched data) s) = (r_status data, length (r_messages data)))
   \<and> ((\<forall>e \<in> set evs. quiet_event (prevPollDataRef s) e) \<longrightarrow>
        refreshTrigger (run_home evs s) = refreshTrigger s \<and>
        prevPollDataRef (run_home evs s) = prevPollDataRef s)
   \<and> (0 < refreshTimers s \<longrightarrow>
        refreshTrigger (home_step RefreshTimeout s) = Suc (refreshTrigger s))"
proof (intro conjI impI)
  assume "responses s < requests s"
  then show "refreshTrigger (settle (Fetched data) s) =
        (if (r_status data, length (r_messages data)) \<noteq> prevPollDataRef s
         then Suc (refreshTrigger s) else refreshTrigger s)"
    and "prevPollDataRef (settle (Fetched data) s) = (r_status data, length (r_messages data))"
    by (auto simp: settle_def rerender_fields apply_poll_def prod_eq_iff)
next
  assume q: "\<forall>e \<in> set evs. quiet_event (prevPollDataRef s) e"
  from quiet_run[OF q] show "refreshTrigger (run_home evs s) = refreshTrigger s"
    and "prevPollDataRef (run_home evs s) = prevPollDataRef s" by simp_all
next
  assume "0 < refreshTimers s"
  then show "refreshTrigger (home_step RefreshTimeout s) = Suc (refreshTrigger s)"
    by (simp add: refresh_timeout_def)
qed

text \<open>
  In the concrete conversation: three more polls with the same answer do not fire the
  signal; the first timeout of the refresh effect does.
\<close>

theorem refresh_signal_gating_witness:
  "prevPollDataRef (run_home drain_prefix home_init) = (''completed'', 1)
   \<and> quiet_event (''completed'', 1) Tick
   \<and> quiet_event (''completed'', 1) (Settle (Fetched reply_completed))
   \<and> refreshTrigger (run_home (concat (replicate 3 poll_round))
        (run_home drain_prefix home_init)) = 1
   \<and> 0 < refreshTimers (run_home drain_prefix home_init)
   \<and> refreshTrigger (home_step RefreshTimeout (run_home drain_prefix home_init)) = 2"
proof -
  let ?s = "run_home drain_prefix home_init"
  have p: "prevPollDataRef ?s = (''completed'', 1)" by (simp add: drain_prefix_state)
  have q1: "quiet_event (''completed'', 1) Tick" by simp
  have q2: "quiet_event (''completed'', 1) (Settle (Fetched reply_completed))"
    by (simp add: reply_completed_def)
  have q: "\<forall>e \<in> set (concat (replicate 3 poll_round)). quiet_event (prevPollDataRef ?s) e"
    using q2 by (simp add: p poll_round_def)
  have t: "0 < refreshTimers ?s" by (simp add: drain_prefix_state)
  have r: "refreshTrigger ?s = 1" by (simp add: drain_prefix_state)
  from refresh_signal_gating[of ?s reply_completed "concat (replicate 3 poll_round)"] q t r
  have "refreshTrigger (run_home (concat (replicate 3 poll_round)) ?s) = 1
    \<and> refreshTrigger (home_step RefreshTimeout ?s) = 2"
    by simp
  with p q1 q2 t show ?thesis by simp
qed

text \<open>
  Claim C6 as it is stated fails. In the concrete conversation the snapshot after the
  first poll is (completed, 1) and the signal has fired once. Three more polls, two
  seconds apart, fetch the same pair; the two timeouts of the refresh effect fire
  during them (two and five seconds after the status became completed), so across these
  three consecutive polls with an unchanged pair the signal fires twice.
\<close>

theorem refresh_signal_counterexample:
  "prevPollDataRef (run_home drain_prefix home_init) = (''completed'', 1)
   \<and> (r_status reply_completed, length (r_messages reply_completed)) = (''completed'', 1)
   \<and> refreshTrigger (run_home drain_prefix home_init) = 1
   \<and> refreshTrigger
        (run_home (drain_prefix @
           [Tick, RefreshTimeout, Settle (Fetched reply_completed),
            Tick, Settle (Fetched reply_completed), RefreshTimeout,
            Tick, Settle (Fetched reply_completed)]) home_init) = 3"
  by (simp add: run_home_append drain_prefix_state tick_def settle_def
      rerender_def apply_poll_def reply_completed_def hasPendingMatch_def isDone_def Let_def
      polling_effect_def refresh_effect_def truthy_def refresh_timeout_def)

subsection \<open>Polling after completion\<close>

text \<open>
  While the status is completed and the one pending message has no match, a tick and
  the settling of its fetch change no dependency of the polling effect: the effect is
  not run again, so its test of \<open>postCompletionPollsRef\<close> is not made and the interval
  stays installed.
\<close>

lemma draining_round:
  assumes "draining s"
  shows "draining (run_home poll_round s) \<and>
     requests (run_home poll_round s) = Suc (requests s) \<and>
     postCompletionPollsRef (run_home poll_round s) = Suc (postCompletionPollsRef s)"
  using assms
  by (simp add: draining_def poll_round_def tick_def settle_def rerender_def apply_poll_def
      reply_completed_def hasPendingMatch_def isDone_def Let_def)

lemma draining_rounds:
  "draining s \<Longrightarrow>
     draining (run_home (concat (replicate n poll_round)) s) \<and>
     requests (run_home (concat (replicate n poll_round)) s) = requests s + n \<and>
     postCompletionPollsRef (run_home (concat (replicate n poll_round)) s) =
       postCompletionPollsRef s + n"
proof (induction n arbitrary: s)
  case 0
  then show ?case by simp
next
  case (Suc n)
  from draining_round[OF Suc.prems] Suc.IH[of "run_home poll_round s"]
  show ?case by (simp add: run_home_append)
qed

text \<open>
  What does hold of the claim: once the status is completed or error, the poll after
  which no pending message is left removes the interval.
\<close>

lemma polling_stops_when_pending_empty:
  assumes "responses s < requests s" "isDone (r_status data)" "pendingMessages s \<noteq> []"
    "pendingMessages (settle (Fetched data) s) = []"
  shows "\<not> pollInterval (settle (Fetched data) s)"
proof -
  from assms(1,4) have e: "pendingMessages (apply_poll data s) = []"
    by (simp add: settle_def rerender_fields)
  from assms(3) e have "length (pendingMessages (apply_poll data s)) \<noteq> length (pendingMessages s)"
    by simp
  with assms(1,2) e show ?thesis
    by (simp add: settle_def rerender_def Let_def polling_effect_def)
       (auto simp: apply_poll_def isDone_def)
qed

text \<open>
  Claim C3 fails on the code. In the concrete conversation the first poll finds the
  status completed while one pending message is unmatched. Twelve more ticks, each
  answered with the same response, issue twelve more fetches (thirteen in all), the
  counter of post-completion polls reaches 13, and the interval is still installed: the
  cap of 10 is tested only when the polling effect runs, and no tick makes it run.
\<close>

theorem drain_cap_not_enforced:
  "status (run_home drain_prefix home_init) = ''completed''
   \<and> length (pendingMessages (run_home drain_prefix home_init)) = 1
   \<and> requests (run_home drain_prefix home_init) = 1
   \<and> requests (run_home (drain_prefix @ concat (replicate 12 poll_round)) home_init) = 13
   \<and> postCompletionPollsRef
        (run_home (drain_prefix @ concat (replicate 12 poll_round)) home_init) = 13
   \<and> length (pendingMessages
        (run_home (drain_prefix @ concat (replicate 12 poll_round)) home_init)) = 1
   \<and> pollInterval (run_home (drain_prefix @ concat (replicate 12 poll_round)) home_init)"
proof -
  have d: "draining (run_home drain_prefix home_init)"
    by (simp add: drain_prefix_state draining_def)
  from draining_rounds[OF d, of 12] show ?thesis
    by (simp add: run_home_append drain_prefix_state draining_def)
qed

end
